theory Spec2Isabelle
  imports Complex_Main "HOL-Library.Word" "HOL-Library.Monad_Syntax"
begin

unbundle bit_operations_syntax

section \<open>Data model of ugrid.hpp\<close>

type_synonym u32 = "32 word"

text \<open>
  The C++ \<open>float\<close> is a type parameter \<open>'f\<close>; the operations on it that the code
  uses are collected in a record that every function working on coordinates takes as an
  argument. \<open>to_u32\<close> stands for \<open>static_cast<uint32_t>\<close>.
\<close>

record 'f float_ops =
  fadd :: "'f \<Rightarrow> 'f \<Rightarrow> 'f"
  fsub :: "'f \<Rightarrow> 'f \<Rightarrow> 'f"
  fmul :: "'f \<Rightarrow> 'f \<Rightarrow> 'f"
  fdiv :: "'f \<Rightarrow> 'f \<Rightarrow> 'f"
  fmax :: "'f \<Rightarrow> 'f \<Rightarrow> 'f"
  fzero :: 'f
  fone :: 'f
  to_u32 :: "'f \<Rightarrow> u32"

record 'f UGridPos =
  PosX :: 'f
  PosY :: 'f

record 'f UGridDim =
  DimW :: 'f
  DimH :: 'f

record UGridCell =
  CellX :: u32
  CellY :: u32

record 'f UGridEntity =
  EntPos :: "'f UGridPos"
  EntDim :: "'f UGridDim"
  Copied :: u32

record UGridReference =
  Next :: u32
  Ref :: u32

subsection \<open>UGridList: the slot arena\<close>

text \<open>
  A slot of the backing array is indeterminate after \<open>allocate\<close>, holds an object once
  one has been assigned, or holds a free-list link once \<open>Ret\<close> has overlaid one on it.
  Every access the C++ leaves undefined (an index outside the allocation, a read of an
  indeterminate slot, a slot read through the other view) has no result: \<open>None\<close>.
  The null pointer and an allocation of length 0 are both the empty list.
\<close>

datatype 'a slot = Uninit | Obj 'a | FreeLink u32

record 'a UGridList =
  Storage :: "'a slot list"
  Used :: u32
  Size :: u32
  Free :: u32

definition UGridList_default :: "'a UGridList" where
  "UGridList_default = \<lparr>Storage = [], Used = 1, Size = 1, Free = 0\<rparr>"

definition UGridList_copy :: "'a UGridList \<Rightarrow> 'a UGridList" where
  "UGridList_copy Other =
     (let sz = min (Size Other) (Used Other * 2)
      in \<lparr>Storage = replicate (unat sz) Uninit, Used = 1, Size = sz, Free = 0\<rparr>)"

definition SetEnd :: "nat \<Rightarrow> 'a UGridList \<Rightarrow> 'a UGridList" where
  "SetEnd End l = l\<lparr>Used := of_nat End\<rparr>"

definition slot_read :: "'a slot list \<Rightarrow> nat \<Rightarrow> 'a option" where
  "slot_read xs i =
     (if i < length xs then (case xs ! i of Obj x \<Rightarrow> Some x | _ \<Rightarrow> None) else None)"

definition slot_write :: "'a slot list \<Rightarrow> nat \<Rightarrow> 'a \<Rightarrow> 'a slot list option" where
  "slot_write xs i x = (if i < length xs then Some (xs[i := Obj x]) else None)"

definition grow :: "'a UGridList \<Rightarrow> 'a UGridList option" where
  "grow l =
     (let sz = push_bit 1 (Size l) OR 1 in
      if Storage l = [] then
        Some (l\<lparr>Size := sz, Storage := replicate (unat sz) Uninit\<rparr>)
      else if unat (Used l) \<le> length (Storage l) \<and> unat (Used l) \<le> unat sz then
        Some (l\<lparr>Size := sz,
                Storage := take (unat (Used l)) (Storage l)
                           @ replicate (unat sz - unat (Used l)) Uninit\<rparr>)
      else None)"

definition Get :: "'a UGridList \<Rightarrow> (u32 \<times> 'a UGridList) option" where
  "Get l =
     (if Free l \<noteq> 0 then
        (if unat (Free l) < length (Storage l) then
           (case Storage l ! unat (Free l) of
              FreeLink n \<Rightarrow> Some (Free l, l\<lparr>Free := n\<rparr>)
            | _ \<Rightarrow> None)
         else None)
      else do {
        l1 \<leftarrow> (if Used l = Size l then grow l else Some l);
        Some (Used l1, l1\<lparr>Used := Used l1 + 1\<rparr>)
      })"

definition Ret :: "u32 \<Rightarrow> 'a UGridList \<Rightarrow> 'a UGridList option" where
  "Ret Index l =
     (if unat Index < length (Storage l)
      then Some (l\<lparr>Storage := (Storage l)[unat Index := FreeLink (Free l)], Free := Index\<rparr>)
      else None)"


subsection \<open>UGrid: the cell table and its geometry\<close>

text \<open>
  \<open>Cells\<close> is the allocation of \<open>CellsNum\<close> words and \<open>CellsEnd\<close> the offset of the
  pointer of that name from \<open>Cells\<close>. The loops of \<open>Optimize\<close> and \<open>Tick\<close> run while
  \<open>Cell <= CellsEnd\<close>, so they also dereference the word at offset \<open>CellsEnd\<close>, which
  lies behind the allocation; \<open>CellsPast\<close> is that word of memory.
\<close>

record 'f UGrid =
  Entities :: "'f UGridEntity UGridList"
  References :: "UGridReference UGridList"
  Cells :: "u32 list"
  CellsEnd :: nat
  CellsPast :: u32
  GridCells :: UGridCell
  CellDim :: "'f UGridDim"
  InverseCellDim :: "'f UGridDim"

text \<open>
  The constructor. \<open>allocate\<close> does not initialise the words it returns: \<open>mem\<close> gives
  the content of memory at each offset from the returned pointer.
\<close>

definition UGrid_new :: "'f float_ops \<Rightarrow> (nat \<Rightarrow> u32) \<Rightarrow> UGridCell \<Rightarrow> 'f UGridDim \<Rightarrow> 'f UGrid" where
  "UGrid_new ops mem GC CD =
     (let CellsNum = CellX GC * CellY GC
      in \<lparr>Entities = UGridList_default,
          References = UGridList_default,
          Cells = map mem [0 ..< unat CellsNum],
          CellsEnd = unat CellsNum,
          CellsPast = mem (unat CellsNum),
          GridCells = GC,
          CellDim = CD,
          InverseCellDim = \<lparr>DimW = fdiv ops (fone ops) (DimW CD),
                            DimH = fdiv ops (fone ops) (DimH CD)\<rparr>\<rparr>)"

definition PosToCell :: "'f float_ops \<Rightarrow> 'f UGrid \<Rightarrow> 'f UGridPos \<Rightarrow> UGridCell" where
  "PosToCell ops g P =
     (let XCell = min (CellX (GridCells g) - 1)
                      (to_u32 ops (fmul ops (fmax ops (PosX P) (fzero ops)) (DimW (InverseCellDim g))));
          YCell = min (CellY (GridCells g) - 1)
                      (to_u32 ops (fmul ops (fmax ops (PosY P) (fzero ops)) (DimH (InverseCellDim g))))
      in \<lparr>CellX = XCell, CellY = YCell\<rparr>)"

text \<open>
  Reading and writing through a pointer \<open>Cells + k\<close>. A read at the offset just behind
  the table yields the word that memory holds there; a write is only defined inside the
  table.
\<close>

definition cell_load :: "'f UGrid \<Rightarrow> nat \<Rightarrow> u32 option" where
  "cell_load g k =
     (if k < length (Cells g) then Some (Cells g ! k)
      else if k = length (Cells g) then Some (CellsPast g)
      else None)"

definition cell_store :: "'f UGrid \<Rightarrow> nat \<Rightarrow> u32 \<Rightarrow> 'f UGrid option" where
  "cell_store g k v =
     (if k < length (Cells g) then Some (g\<lparr>Cells := (Cells g)[k := v]\<rparr>) else None)"

subsection \<open>Insert\<close>

text \<open>The private \<open>Insert(Cell, EntityIndex)\<close>: one link record, put before the head.\<close>

definition Insert_cell :: "nat \<Rightarrow> u32 \<Rightarrow> 'f UGrid \<Rightarrow> 'f UGrid option" where
  "Insert_cell k EntityIndex g = do {
     (Index, refs) \<leftarrow> Get (References g);
     head \<leftarrow> cell_load g k;
     st \<leftarrow> slot_write (Storage refs) (unat Index) \<lparr>Next = head, Ref = EntityIndex\<rparr>;
     cell_store (g\<lparr>References := refs\<lparr>Storage := st\<rparr>\<rparr>) k Index
   }"

text \<open>
  The two \<open>for\<close> loops of the public \<open>Insert\<close>. Their counters are \<open>uint32_t\<close>, so
  \<open>++Y\<close> wraps and a loop whose bound is \<open>0xFFFFFFFF\<close> does not end by its condition.
  The cell offset \<open>X * GridCells.Y + Y\<close> is computed in \<open>uint32_t\<close> too.
\<close>

partial_function (option) Insert_Y :: "u32 \<Rightarrow> u32 \<Rightarrow> u32 \<Rightarrow> u32 \<Rightarrow> 'f UGrid \<Rightarrow> 'f UGrid option" where
  "Insert_Y Index X Y EndY g =
     (if Y \<le> EndY then do {
        g' \<leftarrow> Insert_cell (unat (X * CellY (GridCells g) + Y)) Index g;
        Insert_Y Index X (Y + 1) EndY g'
      } else Some g)"

partial_function (option) Insert_X :: "u32 \<Rightarrow> u32 \<Rightarrow> u32 \<Rightarrow> u32 \<Rightarrow> u32 \<Rightarrow> 'f UGrid \<Rightarrow> 'f UGrid option" where
  "Insert_X Index X EndX StartY EndY g =
     (if X \<le> EndX then do {
        g' \<leftarrow> Insert_Y Index X StartY EndY g;
        Insert_X Index (X + 1) EndX StartY EndY g'
      } else Some g)"

definition Insert :: "'f float_ops \<Rightarrow> 'f UGridEntity \<Rightarrow> 'f UGrid \<Rightarrow> 'f UGrid option" where
  "Insert ops Entity g = do {
     (Index, ents) \<leftarrow> Get (Entities g);
     st \<leftarrow> slot_write (Storage ents) (unat Index) Entity;
     let g1 = g\<lparr>Entities := ents\<lparr>Storage := st\<rparr>\<rparr>;
     let Start = PosToCell ops g1
           \<lparr>PosX = fsub ops (PosX (EntPos Entity)) (DimW (EntDim Entity)),
            PosY = fsub ops (PosY (EntPos Entity)) (DimH (EntDim Entity))\<rparr>;
     let End = PosToCell ops g1
           \<lparr>PosX = fadd ops (PosX (EntPos Entity)) (DimW (EntDim Entity)),
            PosY = fadd ops (PosY (EntPos Entity)) (DimH (EntDim Entity))\<rparr>;
     Insert_X Index (CellX Start) (CellX End) (CellY Start) (CellY End) g1
   }"


subsection \<open>Optimize\<close>

text \<open>
  The state of the compaction loop: the grid (whose old entity records get their
  \<open>Copied\<close> field written and whose cell heads are redirected), the two freshly
  allocated lists, and the offsets of \<open>CurrentEntity\<close> and \<open>CurrentReference\<close> from
  the heads of their lists.
\<close>

record 'f compaction =
  Grid :: "'f UGrid"
  NewEntities :: "'f UGridEntity UGridList"
  CurrentEntity :: nat
  NewReferences :: "UGridReference UGridList"
  CurrentReference :: nat

text \<open>One pass through the body of \<open>while(i)\<close>; the result carries the next \<open>i\<close>.\<close>

definition Optimize_visit :: "nat \<Rightarrow> bool \<Rightarrow> u32 \<Rightarrow> 'f compaction \<Rightarrow> (u32 \<times> 'f compaction) option" where
  "Optimize_visit k First i s = do {
     Reference \<leftarrow> slot_read (Storage (References (Grid s))) (unat i);
     Entity \<leftarrow> slot_read (Storage (Entities (Grid s))) (unat (Ref Reference));
     (s1, EntityCopied) \<leftarrow>
       (if Copied Entity = 0 then do {
          ne \<leftarrow> slot_write (Storage (NewEntities s)) (CurrentEntity s) Entity;
          oe \<leftarrow> slot_write (Storage (Entities (Grid s))) (unat (Ref Reference))
                  (Entity\<lparr>Copied := of_nat (CurrentEntity s)\<rparr>);
          Some (s\<lparr>Grid := (Grid s)\<lparr>Entities := (Entities (Grid s))\<lparr>Storage := oe\<rparr>\<rparr>,
                  NewEntities := (NewEntities s)\<lparr>Storage := ne\<rparr>,
                  CurrentEntity := CurrentEntity s + 1\<rparr>,
                of_nat (CurrentEntity s))
        } else Some (s, Copied Entity));
     g2 \<leftarrow> (if First then cell_store (Grid s1) k (of_nat (CurrentReference s1))
            else Some (Grid s1));
     nr \<leftarrow> slot_write (Storage (NewReferences s1)) (CurrentReference s1)
             \<lparr>Next = (if Next Reference \<noteq> 0 then of_nat (CurrentReference s1 + 1) else 0),
              Ref = EntityCopied\<rparr>;
     Some (Next Reference,
           s1\<lparr>Grid := g2,
              NewReferences := (NewReferences s1)\<lparr>Storage := nr\<rparr>,
              CurrentReference := CurrentReference s1 + 1\<rparr>)
   }"

partial_function (option) Optimize_chain :: "nat \<Rightarrow> bool \<Rightarrow> u32 \<Rightarrow> 'f compaction \<Rightarrow> 'f compaction option" where
  "Optimize_chain k First i s =
     (if i \<noteq> 0 then do {
        (i', s') \<leftarrow> Optimize_visit k First i s;
        Optimize_chain k False i' s'
      } else Some s)"

text \<open>
  The offsets that \<open>for(Cell = Cells; Cell <= CellsEnd; ++Cell)\<close> runs through:
  \<open>0, \<dots>, CellsEnd\<close>, the last one included.
\<close>

definition cell_offsets :: "'f UGrid \<Rightarrow> nat list" where
  "cell_offsets g = [0 ..< Suc (CellsEnd g)]"

fun Optimize_cells :: "nat list \<Rightarrow> 'f compaction \<Rightarrow> 'f compaction option" where
  "Optimize_cells [] s = Some s"
| "Optimize_cells (k # ks) s = do {
     i \<leftarrow> cell_load (Grid s) k;
     s' \<leftarrow> Optimize_chain k True i s;
     Optimize_cells ks s'
   }"

definition Optimize_start :: "'f UGrid \<Rightarrow> 'f compaction" where
  "Optimize_start g =
     \<lparr>Grid = g,
      NewEntities = UGridList_copy (Entities g), CurrentEntity = 1,
      NewReferences = UGridList_copy (References g), CurrentReference = 1\<rparr>"

definition Optimize_finish :: "'f compaction \<Rightarrow> 'f UGrid" where
  "Optimize_finish s =
     (Grid s)\<lparr>Entities := SetEnd (CurrentEntity s) (NewEntities s),
              References := SetEnd (CurrentReference s) (NewReferences s)\<rparr>"

definition Optimize :: "'f UGrid \<Rightarrow> 'f UGrid option" where
  "Optimize g = map_option Optimize_finish (Optimize_cells (cell_offsets g) (Optimize_start g))"

subsection \<open>Tick\<close>

text \<open>The inner \<open>while(j)\<close>: \<open>G\<close> is \<open>GlobalMaxEntityIndex\<close>, \<open>C\<close> is \<open>Collisions\<close>.\<close>

partial_function (option) Tick_pairs :: "UGridReference slot list \<Rightarrow> u32 \<Rightarrow> u32 \<Rightarrow> u32 \<Rightarrow> u32 option" where
  "Tick_pairs R G j C =
     (if j \<noteq> 0 then do {
        OtherReference \<leftarrow> slot_read R (unat j);
        if Ref OtherReference < G
        then Tick_pairs R G (Next OtherReference) C
        else Tick_pairs R G (Next OtherReference) (C + 1)
      } else Some C)"

text \<open>The outer \<open>while(i)\<close>: \<open>L\<close> is \<open>LocalMaxEntityIndex\<close>.\<close>

partial_function (option) Tick_chain :: "UGridReference slot list \<Rightarrow> u32 \<Rightarrow> u32 \<Rightarrow> u32 \<Rightarrow> u32 \<Rightarrow> (u32 \<times> u32) option" where
  "Tick_chain R G i L C =
     (if i \<noteq> 0 then do {
        Reference \<leftarrow> slot_read R (unat i);
        if Ref Reference \<le> G
        then Tick_chain R G (Next Reference) (max L (Ref Reference)) C
        else do {
          C' \<leftarrow> Tick_pairs R G (Next Reference) C;
          Tick_chain R G (Next Reference) (max L (Ref Reference)) C'
        }
      } else Some (L, C))"

fun Tick_cells :: "'f UGrid \<Rightarrow> nat list \<Rightarrow> u32 \<Rightarrow> u32 \<Rightarrow> u32 option" where
  "Tick_cells g [] G C = Some C"
| "Tick_cells g (k # ks) G C = do {
     i \<leftarrow> cell_load g k;
     (L, C') \<leftarrow> Tick_chain (Storage (References g)) G i 0 C;
     Tick_cells g ks (max G L) C'
   }"

text \<open>
  \<open>Tick\<close> is declared \<open>void\<close>: what it hands back is no value. The count goes to
  \<open>std::cout\<close>, followed by a text and \<open>std::endl\<close>.
\<close>

datatype retval = Void | Value u32

datatype cout_item = Number u32 | Text string | Endl

record 'f tick_result =
  Returned :: retval
  GridAfter :: "'f UGrid"
  Printed :: "cout_item list"

definition Tick :: "'f UGrid \<Rightarrow> 'f tick_result option" where
  "Tick g = do {
     g' \<leftarrow> Optimize g;
     Collisions \<leftarrow> Tick_cells g' (cell_offsets g') 0 0;
     Some \<lparr>Returned = Void, GridAfter = g',
           Printed = [Number Collisions, Text '' registered broad collisions'', Endl]\<rparr>
   }"

declare Insert_Y.simps [code] Insert_X.simps [code] Optimize_chain.simps [code]
  Tick_pairs.simps [code] Tick_chain.simps [code]


section \<open>What a grid contains\<close>

text \<open>
  The link records of a chain, read off by following \<open>Next\<close> from a head index for at
  most \<open>n\<close> steps, and the entity indices they name.
\<close>

fun chain :: "UGridReference slot list \<Rightarrow> nat \<Rightarrow> u32 \<Rightarrow> UGridReference list" where
  "chain R 0 i = []"
| "chain R (Suc n) i =
     (if i = 0 then []
      else (case slot_read R (unat i) of
              None \<Rightarrow> []
            | Some r \<Rightarrow> r # chain R n (Next r)))"

definition cell_refs :: "'f UGrid \<Rightarrow> nat \<Rightarrow> u32 list" where
  "cell_refs g k =
     (case cell_load g k of
        None \<Rightarrow> []
      | Some h \<Rightarrow> map Ref (chain (Storage (References g)) (length (Storage (References g))) h))"

text \<open>
  The count the specification asks of the scan, in its own words: the unordered pairs of
  entities that occur together in at least one cell, each pair once.
\<close>

definition pairs_of :: "u32 list \<Rightarrow> (u32 \<times> u32) list" where
  "pairs_of xs = concat (map (\<lambda>a. map (\<lambda>b. (a, b)) (filter (\<lambda>b. a < b) xs)) xs)"

definition cooccurring_pairs :: "'f UGrid \<Rightarrow> (u32 \<times> u32) list" where
  "cooccurring_pairs g =
     remdups (concat (map (\<lambda>k. pairs_of (cell_refs g k)) [0 ..< length (Cells g)]))"

section \<open>Concrete grids\<close>

text \<open>
  Exact arithmetic on rationals as one instance of the coordinate operations. On the
  small dyadic values used below it agrees with single precision.
\<close>

definition exact_ops :: "rat float_ops" where
  "exact_ops =
     \<lparr>fadd = (+), fsub = (-), fmul = (*), fdiv = (/), fmax = max, fzero = 0, fone = 1,
      to_u32 = (\<lambda>q. word_of_int \<lfloor>q\<rfloor>)\<rparr>"

definition entity :: "rat \<Rightarrow> rat \<Rightarrow> rat \<Rightarrow> rat \<Rightarrow> rat UGridEntity" where
  "entity x y w h =
     \<lparr>EntPos = \<lparr>PosX = x, PosY = y\<rparr>, EntDim = \<lparr>DimW = w, DimH = h\<rparr>, Copied = 0\<rparr>"

text \<open>A grid of \<open>nx\<close> by \<open>ny\<close> cells of 16 by 16 units on zero-filled memory.\<close>

definition zero_grid :: "u32 \<Rightarrow> u32 \<Rightarrow> rat UGrid" where
  "zero_grid nx ny =
     UGrid_new exact_ops (\<lambda>_. 0) \<lparr>CellX = nx, CellY = ny\<rparr> \<lparr>DimW = 16, DimH = 16\<rparr>"


text \<open>
  Entity A lies in cell 1 only, entity B, inserted after it, spans cells 0 and 1.
\<close>

definition grid_A_then_B :: "rat UGrid option" where
  "grid_A_then_B =
     Insert exact_ops (entity 24 8 1 1) (zero_grid 2 1) \<bind> Insert exact_ops (entity 16 8 4 1)"

text \<open>Two entities in the only cell of a grid of one cell.\<close>

definition grid_two_in_one :: "rat UGrid option" where
  "grid_two_in_one =
     Insert exact_ops (entity 10 10 5 5) (zero_grid 1 1) \<bind> Insert exact_ops (entity 12 12 5 5)"

text \<open>A grid of one cell whose neighbouring word of memory is not zero.\<close>

definition grid_dirty_past :: "rat UGrid" where
  "grid_dirty_past =
     UGrid_new exact_ops (\<lambda>k. if k = 1 then 7 else 0) \<lparr>CellX = 1, CellY = 1\<rparr>
       \<lparr>DimW = 16, DimH = 16\<rparr>"

section \<open>Invariants of compaction\<close>

text \<open>No object of an entity list carries a forwarding index.\<close>

definition new_clean :: "'f UGridEntity slot list \<Rightarrow> bool" where
  "new_clean xs = (\<forall>e. Obj e \<in> set xs \<longrightarrow> Copied e = 0)"

section \<open>Invariants of the grid\<close>

text \<open>
  \<open>is_chain R h js\<close>: following \<open>Next\<close> from the head \<open>h\<close> visits exactly the link
  records at the indices \<open>js\<close> and then reaches 0.
\<close>

fun is_chain :: "UGridReference slot list \<Rightarrow> u32 \<Rightarrow> u32 list \<Rightarrow> bool" where
  "is_chain R h [] = (h = 0)"
| "is_chain R h (j # js) =
     (h = j \<and> j \<noteq> 0 \<and>
      (case slot_read R (unat j) of None \<Rightarrow> False | Some r \<Rightarrow> is_chain R (Next r) js))"

text \<open>
  A list as the grid keeps it: no free list, the slots \<open>1, \<dots>, Used - 1\<close> hold objects,
  and the storage, once allocated, has \<open>Size\<close> slots.
\<close>

definition arena_ok :: "'a UGridList \<Rightarrow> bool" where
  "arena_ok l =
     (Free l = 0 \<and> 1 \<le> unat (Used l) \<and> unat (Used l) \<le> unat (Size l) \<and>
      (Storage l = [] \<or> length (Storage l) = unat (Size l)) \<and>
      (\<forall>j. 1 \<le> j \<and> j < unat (Used l) \<longrightarrow> slot_read (Storage l) j \<noteq> None))"

text \<open>The heads that the loops of Optimize and Tick read, in their order.\<close>

definition cells_all :: "'f UGrid \<Rightarrow> u32 list" where
  "cells_all g = Cells g @ [CellsPast g]"

text \<open>
  \<open>chains_ok g cs\<close>: \<open>cs\<close> lists, head by head, the indices of the link records of each
  chain; no record belongs to two chains or twice to one, every record lies below
  \<open>Used\<close> and names an entity index between 1 and the \<open>Used\<close> of the entity list.
\<close>

definition chains_ok :: "'f UGrid \<Rightarrow> u32 list list \<Rightarrow> bool" where
  "chains_ok g cs =
     (list_all2 (is_chain (Storage (References g))) (cells_all g) cs \<and>
      distinct (concat cs) \<and>
      (\<forall>j \<in> set (concat cs).
         unat j < unat (Used (References g)) \<and>
         (\<forall>r. slot_read (Storage (References g)) (unat j) = Some r \<longrightarrow>
              1 \<le> unat (Ref r) \<and> unat (Ref r) < unat (Used (Entities g)))))"

definition grid_inv :: "'f UGrid \<Rightarrow> bool" where
  "grid_inv g =
     (arena_ok (Entities g) \<and> arena_ok (References g) \<and>
      CellsEnd g = length (Cells g) \<and> CellsPast g = 0 \<and>
      new_clean (Storage (Entities g)) \<and> (\<exists>cs. chains_ok g cs))"

text \<open>The corner cells of the bounding box, as the public \<open>Insert\<close> computes them.\<close>

definition box_Start :: "'f float_ops \<Rightarrow> 'f UGrid \<Rightarrow> 'f UGridEntity \<Rightarrow> UGridCell" where
  "box_Start ops g Entity =
     PosToCell ops g \<lparr>PosX = fsub ops (PosX (EntPos Entity)) (DimW (EntDim Entity)),
                      PosY = fsub ops (PosY (EntPos Entity)) (DimH (EntDim Entity))\<rparr>"

definition box_End :: "'f float_ops \<Rightarrow> 'f UGrid \<Rightarrow> 'f UGridEntity \<Rightarrow> UGridCell" where
  "box_End ops g Entity =
     PosToCell ops g \<lparr>PosX = fadd ops (PosX (EntPos Entity)) (DimW (EntDim Entity)),
                      PosY = fadd ops (PosY (EntPos Entity)) (DimH (EntDim Entity))\<rparr>"

text \<open>The value that \<open>PosToCell\<close> hands to the conversion on one axis.\<close>

definition scaled :: "'f float_ops \<Rightarrow> 'f \<Rightarrow> 'f \<Rightarrow> 'f" where
  "scaled ops c r = fmul ops (fmax ops c (fzero ops)) r"

section \<open>The renumbering that compaction performs\<close>

text \<open>
  \<open>discover vs\<close>: the entity indices of \<open>vs\<close> in the order of their first occurrence;
  \<open>index_of\<close>: the position of an element in a list.
\<close>

definition discover :: "'a list \<Rightarrow> 'a list" where
  "discover vs = rev (remdups (rev vs))"

fun index_of :: "'a list \<Rightarrow> 'a \<Rightarrow> nat" where
  "index_of [] e = 0"
| "index_of (x # xs) e = (if x = e then 0 else Suc (index_of xs e))"

text \<open>All entity indices met by a walk over the heads in table order.\<close>

definition visit_order :: "'f UGrid \<Rightarrow> u32 list" where
  "visit_order g = concat (map (cell_refs g) (cell_offsets g))"

text \<open>The new index of the entity with old index \<open>e\<close>.\<close>

definition forward :: "'f UGrid \<Rightarrow> u32 \<Rightarrow> u32" where
  "forward g e = of_nat (Suc (index_of (discover (visit_order g)) e))"

text \<open>The link record at an index, and the entity indices named by a list of links.\<close>

definition link_of :: "'f UGrid \<Rightarrow> u32 \<Rightarrow> UGridReference" where
  "link_of g j = the (slot_read (Storage (References g)) (unat j))"

definition refs_of :: "'f UGrid \<Rightarrow> u32 list \<Rightarrow> u32 list" where
  "refs_of g js = map (\<lambda>j. Ref (link_of g j)) js"

text \<open>
  The state of the compaction loop after it has visited the link records \<open>js\<close> of the
  grid \<open>g0\<close> it started from: the old entities discovered so far carry their new index
  in \<open>Copied\<close>, the new entity list holds them in the order of discovery, and the new
  link list holds one record for each link visited, in the order of the visits.
\<close>

definition opt_inv :: "'f UGrid \<Rightarrow> u32 list \<Rightarrow> 'f compaction \<Rightarrow> bool" where
  "opt_inv g0 js s =
     (let D = discover (refs_of g0 js) in
      References (Grid s) = References g0 \<and>
      CellsEnd (Grid s) = CellsEnd g0 \<and> CellsPast (Grid s) = CellsPast g0 \<and>
      GridCells (Grid s) = GridCells g0 \<and>
      CellDim (Grid s) = CellDim g0 \<and> InverseCellDim (Grid s) = InverseCellDim g0 \<and>
      length (Cells (Grid s)) = length (Cells g0) \<and>
      (\<forall>e. slot_read (Storage (Entities (Grid s))) (unat e) =
           (if e \<in> set D
            then map_option (\<lambda>x. x\<lparr>Copied := of_nat (Suc (index_of D e))\<rparr>)
                   (slot_read (Storage (Entities g0)) (unat e))
            else slot_read (Storage (Entities g0)) (unat e))) \<and>
      Size (NewEntities s) = Size (UGridList_copy (Entities g0)) \<and>
      Free (NewEntities s) = 0 \<and>
      length (Storage (NewEntities s)) = unat (Size (UGridList_copy (Entities g0))) \<and>
      CurrentEntity s = Suc (length D) \<and>
      (\<forall>p < length D. slot_read (Storage (NewEntities s)) (Suc p) =
                       slot_read (Storage (Entities g0)) (unat (D ! p))) \<and>
      Size (NewReferences s) = Size (UGridList_copy (References g0)) \<and>
      Free (NewReferences s) = 0 \<and>
      length (Storage (NewReferences s)) = unat (Size (UGridList_copy (References g0))) \<and>
      CurrentReference s = Suc (length js) \<and>
      (\<forall>p < length js. slot_read (Storage (NewReferences s)) (Suc p) =
          Some \<lparr>Next = (if Next (link_of g0 (js ! p)) \<noteq> 0 then of_nat (p + 2) else 0),
                Ref = of_nat (Suc (index_of D (Ref (link_of g0 (js ! p)))))\<rparr>))"

text \<open>
  The chains that compaction builds: the links of the chain of head \<open>m\<close> get consecutive
  indices, starting behind those of all earlier heads.
\<close>

definition new_chains :: "u32 list list \<Rightarrow> u32 list list" where
  "new_chains cs =
     map (\<lambda>m. map of_nat [Suc (length (concat (take m cs))) ..<
                              Suc (length (concat (take m cs))) + length (cs ! m)])
         [0 ..< length cs]"

text \<open>Fewer than \<open>2^31\<close> slots in use in each list, so that \<open>Used * 2\<close> does not wrap.\<close>

definition size_ok :: "'f UGrid \<Rightarrow> bool" where
  "size_ok g = (unat (Used (Entities g)) < 2 ^ 31 \<and> unat (Used (References g)) < 2 ^ 31)"

section \<open>The scan as a function of the chain contents\<close>

text \<open>
  The scan of \<open>Tick\<close> read on the lists of entity indices that the chains hold.
  \<open>pairs_count\<close> walks the remainder of a chain behind a link and counts every index that
  is not below the watermark \<open>G\<close>; \<open>chain_count\<close> walks one chain, keeps the largest
  index seen and starts \<open>pairs_count\<close> for every index above the watermark;
  \<open>cells_count\<close> walks the chains in table order and raises the watermark after each.
\<close>

fun pairs_count :: "u32 \<Rightarrow> u32 list \<Rightarrow> u32 \<Rightarrow> u32" where
  "pairs_count G [] C = C"
| "pairs_count G (r # rs) C = pairs_count G rs (if r < G then C else C + 1)"

fun chain_count :: "u32 \<Rightarrow> u32 list \<Rightarrow> u32 \<Rightarrow> u32 \<Rightarrow> u32 \<times> u32" where
  "chain_count G [] L C = (L, C)"
| "chain_count G (r # rs) L C =
     chain_count G rs (max L r) (if r \<le> G then C else pairs_count G rs C)"

fun cells_count :: "u32 list list \<Rightarrow> u32 \<Rightarrow> u32 \<Rightarrow> u32" where
  "cells_count [] G C = C"
| "cells_count (c # cs) G C =
     (case chain_count G c 0 C of (L, C') \<Rightarrow> cells_count cs (max G L) C')"

text \<open>The number that \<open>Tick\<close> prints for a compacted grid.\<close>

definition scan_count :: "'f UGrid \<Rightarrow> u32" where
  "scan_count g = cells_count (map (cell_refs g) (cell_offsets g)) 0 0"

section \<open>Grids that a program can build\<close>

text \<open>
  The grids reached from a freshly constructed one by \<open>Insert\<close> and \<open>Tick\<close>. The table
  is taken from zero-filled memory, as the code relies on; an inserted entity has its
  scratch field \<open>Copied\<close> at its default 0, which belongs to the compactor alone; a
  \<open>Tick\<close> is taken while fewer than \<open>2^31\<close> slots are in use, so that the capacity
  \<open>Used * 2\<close> of the rebuilt lists does not wrap.
\<close>

inductive reachable :: "'f float_ops \<Rightarrow> 'f UGrid \<Rightarrow> bool" for ops :: "'f float_ops" where
  constructed: "reachable ops (UGrid_new ops (\<lambda>_. 0) GC CD)"
| inserted: "reachable ops g \<Longrightarrow> Copied e = 0 \<Longrightarrow> Insert ops e g = Some g' \<Longrightarrow> reachable ops g'"
| ticked: "reachable ops g \<Longrightarrow> size_ok g \<Longrightarrow> Tick g = Some r \<Longrightarrow> reachable ops (GridAfter r)"

section \<open>The scan of Tick\<close>

text \<open>
  C1. The scan is to count every unordered pair of entities that share a cell exactly
  once. It does not: with A in cell 1 and B, inserted later, in cells 0 and 1, compaction
  numbers B 1 and A 2, the chain of cell 1 is B, A, and the scan skips B there because
  its index is not above the watermark left by cell 0. The pair A, B shares cell 1 and
  is the one co-occurring pair, but the scan prints 0.
\<close>

theorem Tick_misses_pair:
  "(grid_A_then_B \<bind> Tick \<bind>
      (\<lambda>r. Some (Printed r, cell_refs (GridAfter r) 1, cooccurring_pairs (GridAfter r))))
   = Some ([Number 0, Text '' registered broad collisions'', Endl], [1, 2], [(1, 2)])"
  by code_simp

text \<open>
  C2. As stated (Tick hands the count back as its result) the claim fails: Tick is
  \<open>void\<close>. With two entities in one cell the count 1 is printed and nothing is returned.
\<close>

theorem Tick_returns_no_value:
  "(grid_two_in_one \<bind> Tick \<bind> (\<lambda>r. Some (Returned r, Printed r)))
   = Some (Void, [Number 1, Text '' registered broad collisions'', Endl])
   \<and> Void \<noteq> Value 1"
  by code_simp

section \<open>The cell table\<close>

text \<open>
  C4. The table has \<open>GridCells.X * GridCells.Y\<close> heads, but the loops of Optimize and
  Tick run over the offsets \<open>0, \<dots>, CellsNum\<close>: the last one is behind the table. In a
  grid of one cell the offsets are 0 and 1, the word at offset 1 is whatever memory
  holds there, and when it is 7 Optimize follows it as if it were a chain head.
\<close>

theorem Optimize_reads_behind_table:
  "length (Cells grid_dirty_past) = 1 \<and>
   cell_offsets grid_dirty_past = [0, 1] \<and>
   cell_load grid_dirty_past 1 = Some 7 \<and>
   Optimize grid_dirty_past = None"
  by code_simp

section \<open>Construction\<close>

text \<open>
  C9. As stated (a cell count of zero is rejected) the claim fails: the constructor
  checks nothing, and a count of zero gives a grid with an empty table.
\<close>

theorem UGrid_new_zero_count:
  "Cells (zero_grid 0 5) = [] \<and> CellsEnd (zero_grid 0 5) = 0 \<and>
   GridCells (zero_grid 0 5) = \<lparr>CellX = 0, CellY = 5\<rparr>"
  by code_simp

text \<open>
  C9, amended. For every cell count and every cell dimension the constructor produces a
  grid: the table has \<open>GridCells.X * GridCells.Y\<close> heads (the product taken in 32 bits),
  the counts and dimensions are stored as given, and the inverse dimensions are
  \<open>1.0f / CellDim.W\<close> and \<open>1.0f / CellDim.H\<close> whatever the divisor is.
\<close>

theorem UGrid_new_checks_nothing:
  "length (Cells (UGrid_new ops mem GC CD)) = unat (CellX GC * CellY GC) \<and>
   CellsEnd (UGrid_new ops mem GC CD) = unat (CellX GC * CellY GC) \<and>
   GridCells (UGrid_new ops mem GC CD) = GC \<and>
   CellDim (UGrid_new ops mem GC CD) = CD \<and>
   InverseCellDim (UGrid_new ops mem GC CD) =
     \<lparr>DimW = fdiv ops (fone ops) (DimW CD), DimH = fdiv ops (fone ops) (DimH CD)\<rparr>"
  by (simp add: UGrid_new_def Let_def)

section \<open>The scratch field after compaction\<close>

lemma slot_write_clean:
  "slot_write xs i e = Some ys \<Longrightarrow> new_clean xs \<Longrightarrow> Copied e = 0 \<Longrightarrow> new_clean ys"
  by (auto simp: slot_write_def new_clean_def split: if_splits
           dest!: set_update_subset_insert[THEN subsetD])

lemma Optimize_visit_clean:
  "Optimize_visit k First i s = Some (i', s') \<Longrightarrow> new_clean (Storage (NewEntities s)) \<Longrightarrow>
     new_clean (Storage (NewEntities s'))"
  by (auto simp: Optimize_visit_def split: Option.bind_splits if_splits;
      blast intro: slot_write_clean)

lemma Optimize_chain_clean:
  "Optimize_chain k First i s = Some s' \<Longrightarrow>
     new_clean (Storage (NewEntities s)) \<longrightarrow> new_clean (Storage (NewEntities s'))"
  by (erule Optimize_chain.raw_induct[rotated 1])
     (auto split: if_splits Option.bind_splits dest: Optimize_visit_clean)

lemma Optimize_cells_clean:
  "Optimize_cells ks s = Some s' \<Longrightarrow> new_clean (Storage (NewEntities s)) \<Longrightarrow>
     new_clean (Storage (NewEntities s'))"
  by (induction ks arbitrary: s) (auto split: Option.bind_splits dest: Optimize_chain_clean)

text \<open>
  C10. After an Optimize pass every entity record held by the rebuilt entity list has
  \<open>Copied = 0\<close>: a record is copied into the new storage only while its \<open>Copied\<close> is
  still 0, and the forwarding index is written to the old record afterwards.
\<close>

theorem Optimize_Copied_zero:
  "Optimize g = Some g' \<Longrightarrow> slot_read (Storage (Entities g')) i = Some e \<Longrightarrow> Copied e = 0"
proof -
  assume a: "Optimize g = Some g'" and b: "slot_read (Storage (Entities g')) i = Some e"
  from a obtain s where s: "Optimize_cells (cell_offsets g) (Optimize_start g) = Some s"
    and g': "g' = Optimize_finish s"
    by (auto simp: Optimize_def)
  have "new_clean (Storage (NewEntities (Optimize_start g)))"
    by (simp add: Optimize_start_def UGridList_copy_def new_clean_def Let_def)
  with s have "new_clean (Storage (NewEntities s))"
    by (rule Optimize_cells_clean)
  with b g' show ?thesis
    by (auto simp: Optimize_finish_def SetEnd_def slot_read_def new_clean_def
             split: if_splits slot.splits dest: nth_mem)
qed

theorem Optimize_Copied_zero_witness:
  "Optimize (the grid_A_then_B) \<noteq> None \<and>
   slot_read (Storage (Entities (the (Optimize (the grid_A_then_B))))) 2 \<noteq> None \<and>
   Copied (the (slot_read (Storage (Entities (the (Optimize (the grid_A_then_B))))) 2)) = 0"
proof -
  have h1: "Optimize (the grid_A_then_B) = Some (the (Optimize (the grid_A_then_B)))"
    by code_simp
  have h2: "slot_read (Storage (Entities (the (Optimize (the grid_A_then_B))))) 2
            = Some (the (slot_read (Storage (Entities (the (Optimize (the grid_A_then_B))))) 2))"
    by code_simp
  from Optimize_Copied_zero [OF h1 h2] h1 h2 show ?thesis
    by (metis option.distinct(1))
qed

section \<open>Insert keeps the invariants\<close>

lemma slot_read_update:
  "i < length xs \<Longrightarrow> slot_read (xs[i := Obj x]) j = (if j = i then Some x else slot_read xs j)"
  by (auto simp: slot_read_def)

lemma slot_write_Some:
  "slot_write xs i x = Some ys \<longleftrightarrow> i < length xs \<and> ys = xs[i := Obj x]"
  by (auto simp: slot_write_def)

lemma grow_shape:
  assumes "arena_ok l" "Used l = Size l" "grow l = Some l1"
  shows "Used l1 = Used l \<and> Free l1 = Free l \<and> length (Storage l1) = unat (Size l1)
       \<and> unat (Used l) \<le> unat (Size l1)
       \<and> (\<forall>j. j < unat (Used l) \<longrightarrow> slot_read (Storage l1) j = slot_read (Storage l) j)"
proof (cases "Storage l = []")
  case True
  with assms(1) have "unat (Size l) \<le> 1"
    using assms(2) by (auto simp: arena_ok_def slot_read_def)
  with assms(1) have "unat (Size l) = 1" by (auto simp: arena_ok_def)
  then have "Size l = 1" by (metis unat_1 word_unat_eq_iff)
  with True assms show ?thesis
    by (auto simp: grow_def Let_def arena_ok_def slot_read_def)
next
  case False
  with assms show ?thesis
    by (auto simp: grow_def Let_def arena_ok_def slot_read_def nth_append split: if_splits)
qed

lemma Get_arena_ok:
  assumes "arena_ok l" "Get l = Some (i, l1)" "slot_write (Storage l1) (unat i) x = Some st"
  shows "i = Used l \<and> Used l1 = Used l + 1 \<and> unat (Used l) + 1 = unat (Used l1) \<and> Free l1 = 0
       \<and> arena_ok (l1\<lparr>Storage := st\<rparr>)
       \<and> (\<forall>j. j < unat (Used l) \<longrightarrow> slot_read st j = slot_read (Storage l) j)
       \<and> slot_read st (unat i) = Some x"
proof -
  from assms(1) have F: "Free l = 0" by (simp add: arena_ok_def)
  from assms(2) F obtain l0 where l0: "(if Used l = Size l then grow l else Some l) = Some l0"
    and i: "i = Used l0" and l1: "l1 = l0\<lparr>Used := Used l0 + 1\<rparr>"
    by (auto simp: Get_def split: Option.bind_splits)
  have shape: "Used l0 = Used l \<and> Free l0 = 0 \<and> (Storage l0 = [] \<or> length (Storage l0) = unat (Size l0))
       \<and> unat (Used l) \<le> unat (Size l0)
       \<and> (\<forall>j. j < unat (Used l) \<longrightarrow> slot_read (Storage l0) j = slot_read (Storage l) j)"
  proof (cases "Used l = Size l")
    case True
    with l0 have "grow l = Some l0" by simp
    from grow_shape[OF assms(1) True this] F show ?thesis by simp
  next
    case False
    with l0 assms(1) show ?thesis by (auto simp: arena_ok_def)
  qed
  from assms(3) l1 i have w: "unat (Used l) < length (Storage l0)" "st = (Storage l0)[unat (Used l) := Obj x]"
    using shape by (auto simp: slot_write_Some)
  then have len: "length (Storage l0) = unat (Size l0)" using shape by auto
  have lt: "unat (Used l) < unat (Size l0)" using w len by simp
  have "unat (Size l0) < 2 ^ LENGTH(32)" by (rule unsigned_less)
  then have "unat (Size l0) < 2 ^ 32" by simp
  with lt have inc: "unat (Used l + 1) = unat (Used l) + 1"
    by (simp add: unat_word_ariths)
  have R: "\<And>j. slot_read st j = (if j = unat (Used l) then Some x else slot_read (Storage l0) j)"
    using w by (simp add: slot_read_update)
  have old: "\<And>j. j < unat (Used l) \<Longrightarrow> slot_read st j = slot_read (Storage l) j"
    using R shape by simp
  have "arena_ok (l1\<lparr>Storage := st\<rparr>)"
    unfolding arena_ok_def
  proof (intro conjI allI impI)
    fix j assume "1 \<le> j \<and> j < unat (Used (l1\<lparr>Storage := st\<rparr>))"
    then have j: "1 \<le> j" "j < unat (Used l) + 1" using l1 shape inc by auto
    show "slot_read (Storage (l1\<lparr>Storage := st\<rparr>)) j \<noteq> None"
    proof (cases "j = unat (Used l)")
      case True then show ?thesis using R by simp
    next
      case False
      with j have "j < unat (Used l)" by simp
      with j assms(1) old show ?thesis by (auto simp: arena_ok_def)
    qed
  qed (use shape w len lt inc l1 assms(1) in \<open>auto simp: arena_ok_def\<close>)
  then show ?thesis
    using shape inc i l1 R old by auto
qed


lemma is_chain_cong:
  "(\<And>j. j \<in> set js \<Longrightarrow> slot_read R' (unat j) = slot_read R (unat j)) \<Longrightarrow>
     is_chain R' h js = is_chain R h js"
  by (induction js arbitrary: h) (auto split: option.splits)

lemma concat_update_Cons_set:
  "k < length cs \<Longrightarrow> set (concat (cs[k := j # cs ! k])) = insert j (set (concat cs))"
proof (induction cs arbitrary: k)
  case Nil then show ?case by simp
next
  case (Cons c cs) then show ?case by (cases k) auto
qed

lemma concat_update_Cons_distinct:
  "k < length cs \<Longrightarrow> distinct (concat cs) \<Longrightarrow> j \<notin> set (concat cs) \<Longrightarrow>
     distinct (concat (cs[k := j # cs ! k]))"
proof (induction cs arbitrary: k)
  case Nil then show ?case by simp
next
  case (Cons c cs)
  then show ?case by (cases k) (auto simp del: set_concat simp: concat_update_Cons_set)
qed

lemma Insert_cell_effect:
  assumes "arena_ok (References g)" "Insert_cell k e g = Some g'"
  shows "\<exists>R'. g' = g\<lparr>References := R', Cells := (Cells g)[k := Used (References g)]\<rparr>
      \<and> k < length (Cells g) \<and> arena_ok R'
      \<and> unat (Used R') = unat (Used (References g)) + 1
      \<and> (\<forall>j. j < unat (Used (References g)) \<longrightarrow>
             slot_read (Storage R') j = slot_read (Storage (References g)) j)
      \<and> slot_read (Storage R') (unat (Used (References g))) = Some \<lparr>Next = Cells g ! k, Ref = e\<rparr>"
proof -
  from assms(2) obtain i l1 h st where
    G: "Get (References g) = Some (i, l1)" and h: "cell_load g k = Some h"
    and w: "slot_write (Storage l1) (unat i) \<lparr>Next = h, Ref = e\<rparr> = Some st"
    and c: "cell_store (g\<lparr>References := l1\<lparr>Storage := st\<rparr>\<rparr>) k i = Some g'"
    by (auto simp: Insert_cell_def split: Option.bind_splits prod.splits)
  from c have k: "k < length (Cells g)" and g': "g' = g\<lparr>References := l1\<lparr>Storage := st\<rparr>, Cells := (Cells g)[k := i]\<rparr>"
    by (auto simp: cell_store_def split: if_splits)
  from h k have hh: "h = Cells g ! k" by (simp add: cell_load_def)
  from Get_arena_ok[OF assms(1) G w] show ?thesis
    using k g' hh by (intro exI[of _ "l1\<lparr>Storage := st\<rparr>"]) auto
qed


lemma chains_ok_below:
  "chains_ok g cs \<Longrightarrow> j \<in> set (concat cs) \<Longrightarrow> unat j < unat (Used (References g))"
  by (auto simp: chains_ok_def)

lemma Insert_cell_chains:
  assumes ok: "chains_ok g cs" and ar: "arena_ok (References g)"
    and e: "1 \<le> unat e" "unat e < unat (Used (Entities g))"
    and I: "Insert_cell k e g = Some g'"
  shows "chains_ok g' (cs[k := Used (References g) # cs ! k])"
proof -
  let ?R = "Storage (References g)" and ?j = "Used (References g)"
  from Insert_cell_effect[OF ar I] obtain R' where
    g': "g' = g\<lparr>References := R', Cells := (Cells g)[k := ?j]\<rparr>"
    and k: "k < length (Cells g)" and ar': "arena_ok R'"
    and U: "unat (Used R') = unat ?j + 1"
    and old: "\<And>j. j < unat ?j \<Longrightarrow> slot_read (Storage R') j = slot_read ?R j"
    and new: "slot_read (Storage R') (unat ?j) = Some \<lparr>Next = Cells g ! k, Ref = e\<rparr>"
    by blast
  from ok have l2: "list_all2 (is_chain ?R) (cells_all g) cs" and d: "distinct (concat cs)"
    by (auto simp: chains_ok_def)
  from l2 have len: "length cs = Suc (length (Cells g))"
    by (auto simp: cells_all_def dest: list_all2_lengthD)
  have fresh: "?j \<notin> set (concat cs)"
    using chains_ok_below[OF ok] by blast
  have j0: "?j \<noteq> 0" using ar by (auto simp: arena_ok_def unat_gt_0[symmetric])
  have keep: "\<And>m h. m < length cs \<Longrightarrow> is_chain (Storage R') h (cs ! m) = is_chain ?R h (cs ! m)"
  proof (rule is_chain_cong)
    fix m h j assume "m < length cs" "j \<in> set (cs ! m)"
    then have "j \<in> set (concat cs)" using nth_mem[of m cs] by auto
    then have "unat j < unat ?j" by (rule chains_ok_below[OF ok])
    then show "slot_read (Storage R') (unat j) = slot_read ?R (unat j)" by (rule old)
  qed
  have nth: "\<And>m. m < length cs \<Longrightarrow> is_chain ?R (cells_all g ! m) (cs ! m)"
    using l2 by (simp add: list_all2_conv_all_nth)
  have "list_all2 (is_chain (Storage R')) (cells_all g') (cs[k := ?j # cs ! k])"
    unfolding list_all2_conv_all_nth
  proof (intro conjI allI impI)
    show "length (cells_all g') = length (cs[k := ?j # cs ! k])"
      using len g' by (simp add: cells_all_def)
  next
    fix m assume "m < length (cells_all g')"
    then have m: "m < length cs" using len g' by (simp add: cells_all_def)
    show "is_chain (Storage R') (cells_all g' ! m) (cs[k := ?j # cs ! k] ! m)"
    proof (cases "m = k")
      case True
      have "cells_all g' ! k = ?j" using k g' by (simp add: cells_all_def nth_append)
      moreover have "is_chain (Storage R') (Cells g ! k) (cs ! k)"
        using keep[of k] nth[of k] k len by (simp add: cells_all_def nth_append)
      ultimately show ?thesis using True m new j0 g' by simp
    next
      case False
      then have "cells_all g' ! m = cells_all g ! m"
        using g' k by (simp add: cells_all_def nth_append)
      with False m keep[OF m] nth[OF m] g' show ?thesis by simp
    qed
  qed
  moreover have "distinct (concat (cs[k := ?j # cs ! k]))"
    using concat_update_Cons_distinct[OF _ d fresh, of k] k len by simp
  moreover have "\<forall>j \<in> set (concat (cs[k := ?j # cs ! k])).
         unat j < unat (Used R') \<and>
         (\<forall>r. slot_read (Storage R') (unat j) = Some r \<longrightarrow>
              1 \<le> unat (Ref r) \<and> unat (Ref r) < unat (Used (Entities g)))"
  proof
    fix j assume "j \<in> set (concat (cs[k := ?j # cs ! k]))"
    then have "j = ?j \<or> j \<in> set (concat cs)"
      using concat_update_Cons_set[of k cs ?j] k len by auto
    then show "unat j < unat (Used R') \<and>
         (\<forall>r. slot_read (Storage R') (unat j) = Some r \<longrightarrow>
              1 \<le> unat (Ref r) \<and> unat (Ref r) < unat (Used (Entities g)))"
    proof
      assume "j = ?j" then show ?thesis using U new e by simp
    next
      assume a: "j \<in> set (concat cs)"
      then have "unat j < unat ?j" by (rule chains_ok_below[OF ok])
      with a ok old U show ?thesis by (auto simp: chains_ok_def)
    qed
  qed
  ultimately show ?thesis using g' by (simp add: chains_ok_def)
qed

lemma Insert_cell_inv:
  assumes "grid_inv g" "1 \<le> unat e" "unat e < unat (Used (Entities g))"
    and I: "Insert_cell k e g = Some g'"
  shows "grid_inv g' \<and> Entities g' = Entities g \<and> GridCells g' = GridCells g"
proof -
  from assms(1) obtain cs where cs: "chains_ok g cs" and ar: "arena_ok (References g)"
    by (auto simp: grid_inv_def)
  from Insert_cell_chains[OF cs ar assms(2,3) I] have "\<exists>cs'. chains_ok g' cs'" by blast
  moreover from Insert_cell_effect[OF ar I] assms(1)
  have "arena_ok (References g') \<and> Entities g' = Entities g \<and> GridCells g' = GridCells g
        \<and> CellsEnd g' = length (Cells g') \<and> CellsPast g' = 0"
    by (auto simp: grid_inv_def)
  ultimately show ?thesis using assms(1) by (auto simp: grid_inv_def)
qed


lemma Insert_Y_inv:
  "Insert_Y e X Y EndY g = Some g' \<Longrightarrow>
     grid_inv g \<and> 1 \<le> unat e \<and> unat e < unat (Used (Entities g)) \<longrightarrow>
     grid_inv g' \<and> Entities g' = Entities g \<and> GridCells g' = GridCells g"
proof (erule Insert_Y.raw_induct[rotated 1], goal_cases)
  case (1 f e X Y EndY g g')
  show ?case
  proof (intro impI)
    assume a: "grid_inv g \<and> 1 \<le> unat e \<and> unat e < unat (Used (Entities g))"
    show "grid_inv g' \<and> Entities g' = Entities g \<and> GridCells g' = GridCells g"
    proof (cases "Y \<le> EndY")
      case True
      with 1(2) obtain g1 where s: "Insert_cell (unat (X * CellY (GridCells g) + Y)) e g = Some g1"
        and r: "f e X (Y + 1) EndY g1 = Some g'"
        by (auto split: Option.bind_splits)
      from Insert_cell_inv[OF _ _ _ s] a
      have g1: "grid_inv g1 \<and> Entities g1 = Entities g \<and> GridCells g1 = GridCells g" by blast
      with 1(1)[OF r] a show ?thesis by simp
    next
      case False
      with 1(2) a show ?thesis by simp
    qed
  qed
qed

lemma Insert_X_inv:
  "Insert_X e X EndX StartY EndY g = Some g' \<Longrightarrow>
     grid_inv g \<and> 1 \<le> unat e \<and> unat e < unat (Used (Entities g)) \<longrightarrow>
     grid_inv g' \<and> Entities g' = Entities g \<and> GridCells g' = GridCells g"
proof (erule Insert_X.raw_induct[rotated 1], goal_cases)
  case (1 f e X EndX StartY EndY g g')
  show ?case
  proof (intro impI)
    assume a: "grid_inv g \<and> 1 \<le> unat e \<and> unat e < unat (Used (Entities g))"
    show "grid_inv g' \<and> Entities g' = Entities g \<and> GridCells g' = GridCells g"
    proof (cases "X \<le> EndX")
      case True
      with 1(2) obtain g1 where s: "Insert_Y e X StartY EndY g = Some g1"
        and r: "f e (X + 1) EndX StartY EndY g1 = Some g'"
        by (auto split: Option.bind_splits)
      from Insert_Y_inv[OF s] a
      have g1: "grid_inv g1 \<and> Entities g1 = Entities g \<and> GridCells g1 = GridCells g" by blast
      with 1(1)[OF r] a show ?thesis by simp
    next
      case False
      with 1(2) a show ?thesis by simp
    qed
  qed
qed

lemma chains_ok_Entities:
  "chains_ok g cs \<Longrightarrow> unat (Used (Entities g)) \<le> unat (Used E') \<Longrightarrow>
     chains_ok (g\<lparr>Entities := E'\<rparr>) cs"
  by (fastforce simp: chains_ok_def cells_all_def)

lemma PosToCell_Entities [simp]: "PosToCell ops (g\<lparr>Entities := E\<rparr>) P = PosToCell ops g P"
  by (simp add: PosToCell_def)

lemma Insert_unfold:
  "Insert ops e g = Some g' \<longleftrightarrow>
     (\<exists>i l1 st. Get (Entities g) = Some (i, l1) \<and> slot_write (Storage l1) (unat i) e = Some st \<and>
        Insert_X i (CellX (box_Start ops g e)) (CellX (box_End ops g e))
                   (CellY (box_Start ops g e)) (CellY (box_End ops g e))
                   (g\<lparr>Entities := l1\<lparr>Storage := st\<rparr>\<rparr>) = Some g')"
  by (simp add: Insert_def Let_def box_Start_def box_End_def Option.bind_eq_Some_conv split_beta)

lemma Get_clean:
  assumes "arena_ok l" "Get l = Some (i, l1)" "new_clean (Storage l)"
  shows "new_clean (Storage l1)"
proof (cases "Used l = Size l")
  case True
  with assms obtain l0 where g: "grow l = Some l0" and l1: "Storage l1 = Storage l0"
    by (auto simp: Get_def arena_ok_def split: Option.bind_splits)
  from g assms(3) have "new_clean (Storage l0)"
    by (auto simp: grow_def Let_def new_clean_def split: if_splits) (meson in_set_takeD)
  with l1 show ?thesis by simp
next
  case False
  with assms show ?thesis
    by (auto simp: Get_def arena_ok_def split: Option.bind_splits)
qed

lemma Insert_inv:
  assumes inv: "grid_inv g" and c: "Copied e = 0" and I: "Insert ops e g = Some g'"
  shows "grid_inv g'"
proof -
  from I[unfolded Insert_unfold] obtain i l1 st where G: "Get (Entities g) = Some (i, l1)"
    and w: "slot_write (Storage l1) (unat i) e = Some st"
    and X: "Insert_X i (CellX (box_Start ops g e)) (CellX (box_End ops g e))
                   (CellY (box_Start ops g e)) (CellY (box_End ops g e))
                   (g\<lparr>Entities := l1\<lparr>Storage := st\<rparr>\<rparr>) = Some g'"
    by (elim exE conjE)
  let ?g1 = "g\<lparr>Entities := l1\<lparr>Storage := st\<rparr>\<rparr>"
  from inv have ar: "arena_ok (Entities g)" by (simp add: grid_inv_def)
  note A = Get_arena_ok[OF ar G w]
  from inv obtain cs where cs: "chains_ok g cs" by (auto simp: grid_inv_def)
  from A have U: "unat (Used (Entities g)) + 1 = unat (Used l1)" by simp
  then have le: "unat (Used (Entities g)) \<le> unat (Used (l1\<lparr>Storage := st\<rparr>))"
    by simp
  have ch: "chains_ok ?g1 cs"
    by (rule chains_ok_Entities[OF cs le])
  have cl: "new_clean st"
  proof -
    from inv have "new_clean (Storage (Entities g))" by (simp add: grid_inv_def)
    from w Get_clean[OF ar G this] c show ?thesis by (rule slot_write_clean)
  qed
  from A have ar1: "arena_ok (l1\<lparr>Storage := st\<rparr>)" by simp
  have inv1: "grid_inv ?g1"
    using inv ch cl ar1 unfolding grid_inv_def by (intro conjI exI[of _ cs]) simp_all
  from A have "i = Used (Entities g)" by simp
  with U ar have i1: "1 \<le> unat i" "unat i < unat (Used (Entities ?g1))"
    by (simp_all add: arena_ok_def)
  from Insert_X_inv[OF X] inv1 i1 show ?thesis by simp
qed

section \<open>PosToCell\<close>

lemma unat_minus_one_32: "(w :: u32) \<noteq> 0 \<Longrightarrow> unat (w - 1) = unat w - 1"
  by (simp add: unat_minus_one)

lemma unat_min_32: "unat (min (a :: u32) b) = min (unat a) (unat b)"
  by (simp add: min_def word_le_nat_alt)

lemma clamp_axis:
  assumes "(G :: u32) \<noteq> 0"
  shows "unat (min (G - 1) v) = min (unat G - 1) (unat v) \<and> unat (min (G - 1) v) < unat G \<and>
         (v = 0 \<longrightarrow> min (G - 1) v = 0) \<and> (unat G - 1 \<le> unat v \<longrightarrow> min (G - 1) v = G - 1)"
proof -
  have g: "0 < unat G" using assms by (simp add: unat_gt_0)
  have m: "unat (G - 1) = unat G - 1" using assms by (rule unat_minus_one_32)
  have 1: "unat (min (G - 1) v) = min (unat G - 1) (unat v)" by (simp add: unat_min_32 m)
  have 2: "unat (min (G - 1) v) < unat G" using g unfolding 1 by simp
  have 3: "v = 0 \<longrightarrow> min (G - 1) v = 0" by simp
  have 4: "unat G - 1 \<le> unat v \<longrightarrow> min (G - 1) v = G - 1"
  proof
    assume "unat G - 1 \<le> unat v"
    then have "unat (min (G - 1) v) = unat (G - 1)" unfolding 1 m by simp
    then show "min (G - 1) v = G - 1" by (simp add: word_unat_eq_iff)
  qed
  from 1 2 3 4 show ?thesis by blast
qed

text \<open>
  C6, amended. On a grid with non-zero cell counts and for any behaviour of the float
  operations, \<open>PosToCell\<close> yields on each axis the smaller of \<open>CellCount - 1\<close> and the
  converted scaled coordinate, so the cell always lies in \<open>[0, CellCount - 1]\<close>. It is
  cell 0 whenever the clamp against \<open>0.0f\<close> gives zero, zero times the inverse dimension
  is zero and zero converts to 0, which is the case of a negative coordinate; it is the
  last cell whenever the converted value is \<open>CellCount - 1\<close> or more.
\<close>

theorem PosToCell_clamps:
  "CellX (GridCells g) \<noteq> 0 \<Longrightarrow> CellY (GridCells g) \<noteq> 0 \<Longrightarrow>
     unat (CellX (PosToCell ops g P)) =
       min (unat (CellX (GridCells g)) - 1)
           (unat (to_u32 ops (scaled ops (PosX P) (DimW (InverseCellDim g))))) \<and>
     unat (CellY (PosToCell ops g P)) =
       min (unat (CellY (GridCells g)) - 1)
           (unat (to_u32 ops (scaled ops (PosY P) (DimH (InverseCellDim g))))) \<and>
     unat (CellX (PosToCell ops g P)) < unat (CellX (GridCells g)) \<and>
     unat (CellY (PosToCell ops g P)) < unat (CellY (GridCells g)) \<and>
     (fmax ops (PosX P) (fzero ops) = fzero ops \<and>
      fmul ops (fzero ops) (DimW (InverseCellDim g)) = fzero ops \<and>
      to_u32 ops (fzero ops) = 0 \<longrightarrow> CellX (PosToCell ops g P) = 0) \<and>
     (fmax ops (PosY P) (fzero ops) = fzero ops \<and>
      fmul ops (fzero ops) (DimH (InverseCellDim g)) = fzero ops \<and>
      to_u32 ops (fzero ops) = 0 \<longrightarrow> CellY (PosToCell ops g P) = 0) \<and>
     (unat (CellX (GridCells g)) - 1 \<le> unat (to_u32 ops (scaled ops (PosX P) (DimW (InverseCellDim g))))
        \<longrightarrow> CellX (PosToCell ops g P) = CellX (GridCells g) - 1) \<and>
     (unat (CellY (GridCells g)) - 1 \<le> unat (to_u32 ops (scaled ops (PosY P) (DimH (InverseCellDim g))))
        \<longrightarrow> CellY (PosToCell ops g P) = CellY (GridCells g) - 1)"
proof -
  assume x: "CellX (GridCells g) \<noteq> 0" and y: "CellY (GridCells g) \<noteq> 0"
  have px: "CellX (PosToCell ops g P) =
      min (CellX (GridCells g) - 1) (to_u32 ops (scaled ops (PosX P) (DimW (InverseCellDim g))))"
    and py: "CellY (PosToCell ops g P) =
      min (CellY (GridCells g) - 1) (to_u32 ops (scaled ops (PosY P) (DimH (InverseCellDim g))))"
    by (simp_all add: PosToCell_def scaled_def Let_def)
  have zx: "fmax ops (PosX P) (fzero ops) = fzero ops \<and>
      fmul ops (fzero ops) (DimW (InverseCellDim g)) = fzero ops \<and>
      to_u32 ops (fzero ops) = 0 \<longrightarrow>
      to_u32 ops (scaled ops (PosX P) (DimW (InverseCellDim g))) = 0"
    by (simp add: scaled_def)
  have zy: "fmax ops (PosY P) (fzero ops) = fzero ops \<and>
      fmul ops (fzero ops) (DimH (InverseCellDim g)) = fzero ops \<and>
      to_u32 ops (fzero ops) = 0 \<longrightarrow>
      to_u32 ops (scaled ops (PosY P) (DimH (InverseCellDim g))) = 0"
    by (simp add: scaled_def)
  from clamp_axis[OF x, of "to_u32 ops (scaled ops (PosX P) (DimW (InverseCellDim g)))"]
       clamp_axis[OF y, of "to_u32 ops (scaled ops (PosY P) (DimH (InverseCellDim g)))"]
       zx zy
  show ?thesis unfolding px py by blast
qed

text \<open>
  With exact arithmetic a negative coordinate meets the three conditions, and the
  conversion truncates every value of its range.
\<close>

lemma exact_negative:
  "x < 0 \<Longrightarrow> fmax exact_ops x (fzero exact_ops) = fzero exact_ops \<and>
     fmul exact_ops (fzero exact_ops) w = fzero exact_ops \<and> to_u32 exact_ops (fzero exact_ops) = 0"
  by (simp add: exact_ops_def)

lemma exact_cast_truncates:
  "0 \<le> q \<Longrightarrow> q < 2 ^ 32 \<Longrightarrow> unat (to_u32 exact_ops q) = nat \<lfloor>q\<rfloor>"
proof -
  assume a: "0 \<le> q" "q < 2 ^ 32"
  then have f: "0 \<le> \<lfloor>q\<rfloor>" "\<lfloor>q\<rfloor> < 2 ^ 32"
    by (simp_all add: floor_less_iff)
  have "to_u32 exact_ops q = of_nat (nat \<lfloor>q\<rfloor>)"
    using f by (simp add: exact_ops_def)
  moreover have "nat \<lfloor>q\<rfloor> < 2 ^ 32" using f by (simp add: nat_less_iff)
  ultimately show ?thesis by (simp add: unat_of_nat)
qed

text \<open>
  C6. As stated (every position outside the grid lands in a border cell) the claim
  fails where the scaled coordinate leaves the range of the conversion: on a grid 1024
  cells wide with cells of 16 units, the coordinate \<open>2^36 + 8192\<close> scales to
  \<open>2^32 + 512\<close>, whose low 32 bits are 512, a column in the middle of the grid.
\<close>

theorem PosToCell_far_outside:
  "PosToCell exact_ops (zero_grid 1024 1) \<lparr>PosX = 68719484928, PosY = 8\<rparr> = \<lparr>CellX = 512, CellY = 0\<rparr>
   \<and> (68719484928 :: rat) = 2 ^ 36 + 8192 \<and> (1024 * 16 :: rat) \<le> 68719484928"
  by code_simp


theorem PosToCell_clamps_witness:
  "CellX (GridCells (zero_grid 4 4)) \<noteq> 0 \<and> CellY (GridCells (zero_grid 4 4)) \<noteq> 0 \<and>
   fmax exact_ops (- 8) (fzero exact_ops) = fzero exact_ops \<and>
   fmul exact_ops (fzero exact_ops) (DimW (InverseCellDim (zero_grid 4 4))) = fzero exact_ops \<and>
   to_u32 exact_ops (fzero exact_ops) = 0 \<and>
   unat (CellY (GridCells (zero_grid 4 4))) - 1
     \<le> unat (to_u32 exact_ops (scaled exact_ops 1000 (DimH (InverseCellDim (zero_grid 4 4))))) \<and>
   CellX (PosToCell exact_ops (zero_grid 4 4) \<lparr>PosX = - 8, PosY = 1000\<rparr>) = 0 \<and>
   CellY (PosToCell exact_ops (zero_grid 4 4) \<lparr>PosX = - 8, PosY = 1000\<rparr>) = 3"
proof -
  have x: "CellX (GridCells (zero_grid 4 4)) \<noteq> 0" and y: "CellY (GridCells (zero_grid 4 4)) \<noteq> 0"
    by code_simp+
  have n: "fmax exact_ops (- 8) (fzero exact_ops) = fzero exact_ops \<and>
   fmul exact_ops (fzero exact_ops) (DimW (InverseCellDim (zero_grid 4 4))) = fzero exact_ops \<and>
   to_u32 exact_ops (fzero exact_ops) = 0"
    by (simp add: exact_ops_def)
  have b: "unat (CellY (GridCells (zero_grid 4 4))) - 1
     \<le> unat (to_u32 exact_ops (scaled exact_ops 1000 (DimH (InverseCellDim (zero_grid 4 4)))))"
    by code_simp
  have c: "CellY (GridCells (zero_grid 4 4)) - 1 = 3" by code_simp
  from PosToCell_clamps[OF x y, of exact_ops "\<lparr>PosX = - 8, PosY = 1000\<rparr>"] x y n b c
  show ?thesis by simp
qed

section \<open>Compaction, loop by loop\<close>

lemma discover_Nil [simp]: "discover [] = []"
  by (simp add: discover_def)

lemma discover_snoc:
  "discover (vs @ [e]) = (if e \<in> set vs then discover vs else discover vs @ [e])"
  by (simp add: discover_def)

lemma set_discover [simp]: "set (discover vs) = set vs"
  by (simp add: discover_def)

lemma distinct_discover [simp]: "distinct (discover vs)"
  by (simp add: discover_def)

lemma discover_append:
  "discover (vs @ ws) = discover vs @ filter (\<lambda>x. x \<notin> set vs) (discover ws)"
proof (induction ws rule: rev_induct)
  case Nil then show ?case by simp
next
  case (snoc w ws)
  have "discover (vs @ ws @ [w]) = discover ((vs @ ws) @ [w])" by simp
  also have "\<dots> = (if w \<in> set (vs @ ws) then discover (vs @ ws) else discover (vs @ ws) @ [w])"
    by (rule discover_snoc)
  finally show ?case using snoc by (auto simp: discover_snoc)
qed

lemma index_of_less: "e \<in> set xs \<Longrightarrow> index_of xs e < length xs"
  by (induction xs) auto

lemma index_of_nth: "e \<in> set xs \<Longrightarrow> xs ! index_of xs e = e"
  by (induction xs) auto

lemma index_of_append: "e \<in> set xs \<Longrightarrow> index_of (xs @ ys) e = index_of xs e"
  by (induction xs) auto

lemma index_of_append_notin:
  "e \<notin> set xs \<Longrightarrow> index_of (xs @ ys) e = length xs + index_of ys e"
  by (induction xs) auto

lemma index_of_snoc_new: "e \<notin> set xs \<Longrightarrow> index_of (xs @ [e]) e = length xs"
  by (simp add: index_of_append_notin)

lemma index_of_nth_distinct: "distinct xs \<Longrightarrow> p < length xs \<Longrightarrow> index_of xs (xs ! p) = p"
proof (induction xs arbitrary: p)
  case Nil then show ?case by simp
next
  case (Cons x xs) then show ?case by (cases p) auto
qed

lemma index_of_inj: "a \<in> set xs \<Longrightarrow> b \<in> set xs \<Longrightarrow> index_of xs a = index_of xs b \<Longrightarrow> a = b"
  by (metis index_of_nth)

lemma slot_read_SomeD: "slot_read xs i = Some x \<Longrightarrow> i < length xs"
  by (auto simp: slot_read_def split: if_splits)

lemma unat_of_nat_32: "n < 2 ^ 32 \<Longrightarrow> unat (of_nat n :: u32) = n"
  by (simp add: unat_of_nat)

lemma of_nat_Suc_neq0: "n < 2 ^ 32 - 1 \<Longrightarrow> (of_nat (Suc n) :: u32) \<noteq> 0"
  by (rule of_nat_neq_0) simp_all

lemma unat_less_32: "unat (w :: u32) < 2 ^ 32"
  using unsigned_less[of w, where 'a=nat] by simp

lemma refs_of_snoc:
  "slot_read (Storage (References g0)) (unat i) = Some r \<Longrightarrow>
     refs_of g0 (js @ [i]) = refs_of g0 js @ [Ref r]"
  by (simp add: refs_of_def link_of_def)

lemma Optimize_visit_spec:
  assumes inv: "opt_inv g0 js s"
    and L: "slot_read (Storage (References g0)) (unat i) = Some r"
    and E: "slot_read (Storage (Entities g0)) (unat (Ref r)) = Some x" "Copied x = 0"
    and capR: "length (js @ [i]) < unat (Size (UGridList_copy (References g0)))"
    and capE: "length (discover (refs_of g0 (js @ [i]))) < unat (Size (UGridList_copy (Entities g0)))"
    and k: "First \<longrightarrow> k < length (Cells g0)"
  shows "\<exists>s'. Optimize_visit k First i s = Some (Next r, s') \<and> opt_inv g0 (js @ [i]) s' \<and>
           Cells (Grid s') = (if First then (Cells (Grid s))[k := of_nat (Suc (length js))]
                              else Cells (Grid s))"
proof -
  define D where "D = discover (refs_of g0 js)"
  define e where "e = Ref r"
  define D' where "D' = discover (refs_of g0 (js @ [i]))"
  have D': "D' = (if e \<in> set D then D else D @ [e])"
    by (simp add: D'_def D_def e_def refs_of_snoc[OF L] discover_snoc)
  have li: "link_of g0 i = r" using L by (simp add: link_of_def)
  note I = inv[unfolded opt_inv_def Let_def, folded D_def]
  have capE': "length D' < 2 ^ 32"
    using capE unat_less_32[of "Size (UGridList_copy (Entities g0))"] by (simp add: D'_def)
  have capR': "Suc (length js) < 2 ^ 32"
    using capR unat_less_32[of "Size (UGridList_copy (References g0))"] by simp
  have RL: "slot_read (Storage (References (Grid s))) (unat i) = Some r"
    using I L by simp
  let ?cellw = "\<lambda>g. if First then g\<lparr>Cells := (Cells g)[k := of_nat (Suc (length js))]\<rparr> else g"
  let ?newref = "\<lambda>c. \<lparr>Next = (if Next r \<noteq> 0 then of_nat (Suc (length js) + 1) else 0), Ref = c\<rparr>"
  show ?thesis
  proof (cases "e \<in> set D")
    case True
    then have RE: "slot_read (Storage (Entities (Grid s))) (unat (Ref r))
                   = Some (x\<lparr>Copied := of_nat (Suc (index_of D e))\<rparr>)"
      using I E by (simp add: e_def)
    have idx: "index_of D e < length D" using True by (rule index_of_less)
    have DD: "D' = D" using D' True by simp
    have nz: "(of_nat (Suc (index_of D e)) :: u32) \<noteq> 0"
      using idx capE' DD by (intro of_nat_Suc_neq0) simp
    define s' where "s' = s\<lparr>Grid := ?cellw (Grid s),
        NewReferences := (NewReferences s)\<lparr>Storage := (Storage (NewReferences s))
            [Suc (length js) := Obj (?newref (of_nat (Suc (index_of D e))))]\<rparr>,
        CurrentReference := Suc (Suc (length js))\<rparr>"
    have step: "Optimize_visit k First i s = Some (Next r, s')"
      using RL RE nz I k capR
      by (simp add: Optimize_visit_def s'_def cell_store_def slot_write_def)
    have "opt_inv g0 (js @ [i]) s'"
      unfolding opt_inv_def Let_def D'_def[symmetric] DD
      using I capR
      by (auto simp: s'_def slot_read_update nth_append li e_def less_Suc_eq)
    moreover have "Cells (Grid s') = (if First then (Cells (Grid s))[k := of_nat (Suc (length js))]
                              else Cells (Grid s))"
      by (simp add: s'_def)
    ultimately show ?thesis using step by blast
  next
    case False
    then have RE: "slot_read (Storage (Entities (Grid s))) (unat (Ref r)) = Some x"
      using I E by (simp add: e_def)
    have DD: "D' = D @ [e]" using D' False by simp
    have lenD: "Suc (length D) < unat (Size (UGridList_copy (Entities g0)))"
      using capE DD by (simp add: D'_def)
    define s' where "s' = s\<lparr>Grid := ?cellw ((Grid s)\<lparr>Entities := (Entities (Grid s))
            \<lparr>Storage := (Storage (Entities (Grid s)))
               [unat e := Obj (x\<lparr>Copied := of_nat (Suc (length D))\<rparr>)]\<rparr>\<rparr>),
        NewEntities := (NewEntities s)\<lparr>Storage := (Storage (NewEntities s))
            [Suc (length D) := Obj x]\<rparr>,
        CurrentEntity := Suc (Suc (length D)),
        NewReferences := (NewReferences s)\<lparr>Storage := (Storage (NewReferences s))
            [Suc (length js) := Obj (?newref (of_nat (Suc (length D))))]\<rparr>,
        CurrentReference := Suc (Suc (length js))\<rparr>"
    have ue: "unat e < length (Storage (Entities (Grid s)))"
      using RE by (auto simp: e_def dest: slot_read_SomeD)
    have step: "Optimize_visit k First i s = Some (Next r, s')"
      using RL RE E(2) I k capR lenD ue
      by (simp add: Optimize_visit_def s'_def cell_store_def slot_write_def e_def)
    have mem: "\<And>p. p < length js \<Longrightarrow> Ref (link_of g0 (js ! p)) \<in> set D"
      by (simp add: D_def refs_of_def)
    have "opt_inv g0 (js @ [i]) s'"
      unfolding opt_inv_def Let_def D'_def[symmetric] DD
      using I capR lenD ue False E(1)
      by (auto simp: s'_def slot_read_update nth_append li less_Suc_eq mem
            index_of_append index_of_snoc_new word_unat_eq_iff[symmetric] e_def[symmetric])
    moreover have "Cells (Grid s') = (if First then (Cells (Grid s))[k := of_nat (Suc (length js))]
                              else Cells (Grid s))"
      by (simp add: s'_def)
    ultimately show ?thesis using step by blast
  qed
qed

lemma length_discover_append: "length (discover xs) \<le> length (discover (xs @ ys))"
  by (simp add: discover_append)

lemma refs_of_append [simp]: "refs_of g (xs @ ys) = refs_of g xs @ refs_of g ys"
  by (simp add: refs_of_def)

lemma Optimize_chain_spec:
  assumes "opt_inv g0 js s"
    and "is_chain (Storage (References g0)) i rest"
    and "\<forall>j \<in> set rest. \<exists>x. slot_read (Storage (Entities g0)) (unat (Ref (link_of g0 j))) = Some x
                             \<and> Copied x = 0"
    and "length (js @ rest) < unat (Size (UGridList_copy (References g0)))"
    and "length (discover (refs_of g0 (js @ rest))) < unat (Size (UGridList_copy (Entities g0)))"
    and "First \<and> rest \<noteq> [] \<longrightarrow> k < length (Cells g0)"
  shows "\<exists>s'. Optimize_chain k First i s = Some s' \<and> opt_inv g0 (js @ rest) s' \<and>
           Cells (Grid s') = (if First \<and> rest \<noteq> [] then (Cells (Grid s))[k := of_nat (Suc (length js))]
                              else Cells (Grid s))"
  using assms
proof (induction rest arbitrary: i js s First)
  case Nil
  then show ?case by (simp add: Optimize_chain.simps)
next
  case (Cons j rest)
  from Cons.prems(2) obtain r where ij: "i = j" "j \<noteq> 0"
    and L: "slot_read (Storage (References g0)) (unat i) = Some r"
    and ch: "is_chain (Storage (References g0)) (Next r) rest"
    by (auto split: option.splits)
  have lj: "link_of g0 j = r" using L ij by (simp add: link_of_def)
  from Cons.prems(3) lj obtain x where
    E: "slot_read (Storage (Entities g0)) (unat (Ref r)) = Some x" "Copied x = 0"
    by auto
  have capR: "length (js @ [i]) < unat (Size (UGridList_copy (References g0)))"
    using Cons.prems(4) by simp
  have "length (discover (refs_of g0 (js @ [i]))) \<le> length (discover (refs_of g0 ((js @ [i]) @ rest)))"
    unfolding refs_of_append by (rule length_discover_append)
  then have capE: "length (discover (refs_of g0 (js @ [i]))) < unat (Size (UGridList_copy (Entities g0)))"
    using Cons.prems(5) ij by simp
  have k: "First \<longrightarrow> k < length (Cells g0)" using Cons.prems(6) by simp
  from Optimize_visit_spec[OF Cons.prems(1) L E capR capE k] obtain s1 where
    v: "Optimize_visit k First i s = Some (Next r, s1)" and inv1: "opt_inv g0 (js @ [i]) s1"
    and c1: "Cells (Grid s1) = (if First then (Cells (Grid s))[k := of_nat (Suc (length js))]
                              else Cells (Grid s))"
    by blast
  have "\<exists>s'. Optimize_chain k False (Next r) s1 = Some s' \<and> opt_inv g0 ((js @ [i]) @ rest) s' \<and>
           Cells (Grid s') = (if False \<and> rest \<noteq> [] then (Cells (Grid s1))[k := of_nat (Suc (length (js @ [i])))]
                              else Cells (Grid s1))"
  proof (rule Cons.IH[OF inv1 ch])
    show "\<forall>j\<in>set rest. \<exists>x. slot_read (Storage (Entities g0)) (unat (Ref (link_of g0 j))) = Some x \<and> Copied x = 0"
      using Cons.prems(3) by simp
    show "length ((js @ [i]) @ rest) < unat (Size (UGridList_copy (References g0)))"
      using Cons.prems(4) by simp
    show "length (discover (refs_of g0 ((js @ [i]) @ rest))) < unat (Size (UGridList_copy (Entities g0)))"
      using Cons.prems(5) ij by simp
    show "False \<and> rest \<noteq> [] \<longrightarrow> k < length (Cells g0)" by simp
  qed
  then obtain s' where r: "Optimize_chain k False (Next r) s1 = Some s'"
    and inv': "opt_inv g0 ((js @ [i]) @ rest) s'" and c': "Cells (Grid s') = Cells (Grid s1)"
    by auto
  have "Optimize_chain k First i s = Some s'"
    using ij v r by (subst Optimize_chain.simps) simp
  then show ?case using inv' c' c1 ij by simp
qed

lemma opt_inv_frame:
  "opt_inv g0 js s \<Longrightarrow> CellsPast (Grid s) = CellsPast g0 \<and> length (Cells (Grid s)) = length (Cells g0)"
  by (simp add: opt_inv_def Let_def)

lemma cell_load_update:
  "k < length (Cells g) \<Longrightarrow> Cells g' = (Cells g)[k := v] \<Longrightarrow> CellsPast g' = CellsPast g \<Longrightarrow>
     cell_load g' k' = (if k' = k then Some v else cell_load g k')"
  by (auto simp: cell_load_def)

lemma cell_load_same:
  "Cells g' = Cells g \<Longrightarrow> CellsPast g' = CellsPast g \<Longrightarrow> cell_load g' k' = cell_load g k'"
  by (simp add: cell_load_def)

lemma Optimize_cells_spec:
  assumes "opt_inv g0 js s"
    and "length css = length ks" and "distinct ks"
    and "\<forall>m < length ks. \<exists>h. cell_load (Grid s) (ks ! m) = Some h \<and>
                                is_chain (Storage (References g0)) h (css ! m)"
    and "\<forall>m < length ks. css ! m \<noteq> [] \<longrightarrow> ks ! m < length (Cells g0)"
    and "\<forall>j \<in> set (concat css). \<exists>x. slot_read (Storage (Entities g0)) (unat (Ref (link_of g0 j))) = Some x
                             \<and> Copied x = 0"
    and "length (js @ concat css) < unat (Size (UGridList_copy (References g0)))"
    and "length (discover (refs_of g0 (js @ concat css))) < unat (Size (UGridList_copy (Entities g0)))"
  shows "\<exists>s'. Optimize_cells ks s = Some s' \<and> opt_inv g0 (js @ concat css) s' \<and>
           (\<forall>m < length ks. cell_load (Grid s') (ks ! m) =
               (if css ! m = [] then cell_load (Grid s) (ks ! m)
                else Some (of_nat (Suc (length js + length (concat (take m css))))))) \<and>
           (\<forall>k'. k' \<notin> set ks \<longrightarrow> cell_load (Grid s') k' = cell_load (Grid s) k')"
  using assms
proof (induction ks arbitrary: css js s)
  case Nil
  then show ?case by simp
next
  case (Cons k ks)
  from Cons.prems(2) obtain c css' where css: "css = c # css'" and len': "length css' = length ks"
    by (cases css) auto
  from Cons.prems(4)[rule_format, of 0] css obtain h where
    h: "cell_load (Grid s) k = Some h" and ch: "is_chain (Storage (References g0)) h c"
    by auto
  have kk: "c \<noteq> [] \<longrightarrow> k < length (Cells g0)"
    using Cons.prems(5)[rule_format, of 0] css by simp
  have "\<exists>s1. Optimize_chain k True h s = Some s1 \<and> opt_inv g0 (js @ c) s1 \<and>
           Cells (Grid s1) = (if True \<and> c \<noteq> [] then (Cells (Grid s))[k := of_nat (Suc (length js))]
                              else Cells (Grid s))"
  proof (rule Optimize_chain_spec[OF Cons.prems(1) ch])
    show "\<forall>j\<in>set c. \<exists>x. slot_read (Storage (Entities g0)) (unat (Ref (link_of g0 j))) = Some x \<and> Copied x = 0"
      using Cons.prems(6) css by simp
    show "length (js @ c) < unat (Size (UGridList_copy (References g0)))"
      using Cons.prems(7) css by simp
    have "length (discover (refs_of g0 (js @ c))) \<le> length (discover (refs_of g0 ((js @ c) @ concat css')))"
      unfolding refs_of_append by (rule length_discover_append)
    then show "length (discover (refs_of g0 (js @ c))) < unat (Size (UGridList_copy (Entities g0)))"
      using Cons.prems(8) css by simp
    show "True \<and> c \<noteq> [] \<longrightarrow> k < length (Cells g0)" using kk by simp
  qed
  then obtain s1 where c1: "Optimize_chain k True h s = Some s1" and inv1: "opt_inv g0 (js @ c) s1"
    and cells1: "Cells (Grid s1) = (if c \<noteq> [] then (Cells (Grid s))[k := of_nat (Suc (length js))]
                              else Cells (Grid s))"
    by auto
  from opt_inv_frame[OF inv1] have p1: "CellsPast (Grid s1) = CellsPast g0" by (rule conjunct1)
  from opt_inv_frame[OF Cons.prems(1)] have p0: "CellsPast (Grid s) = CellsPast g0"
    and l0: "length (Cells (Grid s)) = length (Cells g0)" by simp_all
  have past: "CellsPast (Grid s1) = CellsPast (Grid s)" "length (Cells (Grid s)) = length (Cells g0)"
    by (simp only: p1 p0, rule l0)
  have load1: "\<And>k'. cell_load (Grid s1) k' =
      (if k' = k \<and> c \<noteq> [] then Some (of_nat (Suc (length js))) else cell_load (Grid s) k')"
  proof -
    fix k'
    show "cell_load (Grid s1) k' =
      (if k' = k \<and> c \<noteq> [] then Some (of_nat (Suc (length js))) else cell_load (Grid s) k')"
    proof (cases "c = []")
      case True
      then have "cell_load (Grid s1) k' = cell_load (Grid s) k'"
        using cells1 past by (intro cell_load_same) simp_all
      with True show ?thesis by simp
    next
      case False
      with kk past have "k < length (Cells (Grid s))" by simp
      from cell_load_update[OF this, of "Grid s1" "of_nat (Suc (length js))" k'] cells1 past False
      show ?thesis by simp
    qed
  qed
  from Cons.prems(3) have kn: "k \<notin> set ks" and dks: "distinct ks" by simp_all
  have "\<exists>s'. Optimize_cells ks s1 = Some s' \<and> opt_inv g0 ((js @ c) @ concat css') s' \<and>
           (\<forall>m < length ks. cell_load (Grid s') (ks ! m) =
               (if css' ! m = [] then cell_load (Grid s1) (ks ! m)
                else Some (of_nat (Suc (length (js @ c) + length (concat (take m css'))))))) \<and>
           (\<forall>k'. k' \<notin> set ks \<longrightarrow> cell_load (Grid s') k' = cell_load (Grid s1) k')"
  proof (rule Cons.IH[OF inv1 len' dks])
    show "\<forall>m<length ks. \<exists>h. cell_load (Grid s1) (ks ! m) = Some h \<and>
               is_chain (Storage (References g0)) h (css' ! m)"
    proof (intro allI impI)
      fix m assume m: "m < length ks"
      then have "ks ! m \<noteq> k" using kn by (metis nth_mem)
      then have "cell_load (Grid s1) (ks ! m) = cell_load (Grid s) ((k # ks) ! Suc m)"
        by (simp add: load1)
      with Cons.prems(4)[rule_format, of "Suc m"] m css
      show "\<exists>h. cell_load (Grid s1) (ks ! m) = Some h \<and>
               is_chain (Storage (References g0)) h (css' ! m)" by simp
    qed
    show "\<forall>m<length ks. css' ! m \<noteq> [] \<longrightarrow> ks ! m < length (Cells g0)"
      using Cons.prems(5) css by (metis Suc_less_eq length_Cons nth_Cons_Suc)
    show "\<forall>j\<in>set (concat css'). \<exists>x. slot_read (Storage (Entities g0)) (unat (Ref (link_of g0 j))) = Some x \<and> Copied x = 0"
      using Cons.prems(6) css by simp
    show "length ((js @ c) @ concat css') < unat (Size (UGridList_copy (References g0)))"
      using Cons.prems(7) css by simp
    show "length (discover (refs_of g0 ((js @ c) @ concat css'))) < unat (Size (UGridList_copy (Entities g0)))"
      using Cons.prems(8) css by simp
  qed
  then obtain s' where r: "Optimize_cells ks s1 = Some s'"
    and inv': "opt_inv g0 ((js @ c) @ concat css') s'"
    and heads: "\<And>m. m < length ks \<Longrightarrow> cell_load (Grid s') (ks ! m) =
               (if css' ! m = [] then cell_load (Grid s1) (ks ! m)
                else Some (of_nat (Suc (length (js @ c) + length (concat (take m css'))))))"
    and others: "\<And>k'. k' \<notin> set ks \<Longrightarrow> cell_load (Grid s') k' = cell_load (Grid s1) k'"
    by blast
  have run: "Optimize_cells (k # ks) s = Some s'"
    using h c1 r by simp
  have H: "\<forall>m < length (k # ks). cell_load (Grid s') ((k # ks) ! m) =
               (if css ! m = [] then cell_load (Grid s) ((k # ks) ! m)
                else Some (of_nat (Suc (length js + length (concat (take m css))))))"
  proof (intro allI impI)
    fix m assume m: "m < length (k # ks)"
    show "cell_load (Grid s') ((k # ks) ! m) =
               (if css ! m = [] then cell_load (Grid s) ((k # ks) ! m)
                else Some (of_nat (Suc (length js + length (concat (take m css))))))"
    proof (cases m)
      case 0
      then show ?thesis using others[OF kn] load1[of k] css by simp
    next
      case (Suc m')
      with m have m': "m' < length ks" by simp
      then have "ks ! m' \<noteq> k" using kn by (metis nth_mem)
      then have "cell_load (Grid s1) (ks ! m') = cell_load (Grid s) (ks ! m')"
        by (simp add: load1)
      with heads[OF m'] Suc css show ?thesis by simp
    qed
  qed
  have O: "\<forall>k'. k' \<notin> set (k # ks) \<longrightarrow> cell_load (Grid s') k' = cell_load (Grid s) k'"
    using others load1 by simp
  from run inv' H O css show ?case by simp
qed

lemma length_le_of_unat_bound:
  assumes "distinct (xs :: u32 list)" "\<forall>x \<in> set xs. unat x < n"
  shows "length xs \<le> n"
proof -
  have "length xs = card (set xs)" using assms(1) by (simp add: distinct_card)
  also have "\<dots> = card (unat ` set xs)"
    by (rule card_image[symmetric]) (auto simp: inj_on_def word_unat_eq_iff)
  also have "\<dots> \<le> card {..<n}"
    by (rule card_mono) (use assms(2) in auto)
  finally show ?thesis by simp
qed

lemma length_less_of_unat_bound:
  assumes "distinct (xs :: u32 list)" "\<forall>x \<in> set xs. 0 < unat x \<and> unat x < n"
  shows "length xs < n \<or> (xs = [] \<and> n = 0)"
proof -
  have "length xs = card (set xs)" using assms(1) by (simp add: distinct_card)
  also have "\<dots> = card (unat ` set xs)"
    by (rule card_image[symmetric]) (auto simp: inj_on_def word_unat_eq_iff)
  also have "\<dots> \<le> card {1..<n}"
    by (rule card_mono) (use assms(2) in auto)
  finally have "length xs \<le> n - 1" by simp
  then show ?thesis using assms(2) by (cases xs) auto
qed

lemma is_chain_mem:
  "is_chain R h c \<Longrightarrow> j \<in> set c \<Longrightarrow> j \<noteq> 0 \<and> slot_read R (unat j) \<noteq> None"
  by (induction c arbitrary: h) (auto split: option.splits)

lemma is_chain_zero: "is_chain R 0 c \<Longrightarrow> c = []"
  by (cases c) auto

lemma is_chain_next:
  "is_chain R h c \<Longrightarrow> t < length c \<Longrightarrow>
     Next (the (slot_read R (unat (c ! t)))) = (if Suc t < length c then c ! Suc t else 0) \<and>
     (Suc t < length c \<longrightarrow> c ! Suc t \<noteq> 0)"
proof (induction c arbitrary: h t)
  case Nil then show ?case by simp
next
  case (Cons j c)
  from Cons.prems(1) obtain r where r: "slot_read R (unat j) = Some r" and ch: "is_chain R (Next r) c"
    by (auto split: option.splits)
  show ?case
  proof (cases t)
    case 0
    show ?thesis
    proof (cases c)
      case Nil with 0 r ch show ?thesis by simp
    next
      case (Cons j' c') with 0 r ch show ?thesis by (auto split: option.splits)
    qed
  next
    case (Suc t')
    with Cons.IH[OF ch, of t'] Cons.prems(2) show ?thesis by simp
  qed
qed

lemma nth_concat_take:
  "m < length cs \<Longrightarrow> t < length (cs ! m) \<Longrightarrow>
     concat cs ! (length (concat (take m cs)) + t) = cs ! m ! t \<and>
     length (concat (take m cs)) + t < length (concat cs)"
proof (induction cs arbitrary: m)
  case Nil then show ?case by simp
next
  case (Cons c cs)
  show ?case
  proof (cases m)
    case 0 with Cons.prems show ?thesis by (simp add: nth_append)
  next
    case (Suc m')
    with Cons.prems Cons.IH[of m'] show ?thesis by (simp add: nth_append add.assoc)
  qed
qed

lemma chain_is_chain:
  "is_chain R h c \<Longrightarrow> length c \<le> n \<Longrightarrow> chain R n h = map (\<lambda>j. the (slot_read R (unat j))) c"
proof (induction c arbitrary: h n)
  case Nil then show ?case by (cases n) auto
next
  case (Cons j c)
  then obtain n' where n: "n = Suc n'" by (cases n) auto
  from Cons.prems(1) obtain r where r: "slot_read R (unat j) = Some r" "h = j" "j \<noteq> 0"
    and ch: "is_chain R (Next r) c"
    by (auto split: option.splits)
  with Cons.IH[OF ch, of n'] Cons.prems(2) n show ?case by simp
qed

lemma is_chain_block:
  assumes "\<forall>t < len. \<exists>r. slot_read NR (a + t) = Some r \<and>
              Next r = (if Suc t < len then of_nat (a + Suc t) else 0)"
    and "1 \<le> a" "a + len \<le> 2 ^ 32"
  shows "is_chain NR (if len = 0 then 0 else of_nat a) (map of_nat [a ..< a + len])"
  using assms
proof (induction len arbitrary: a)
  case 0 then show ?case by simp
next
  case (Suc len)
  from Suc.prems(1)[rule_format, of 0] obtain r where
    r: "slot_read NR a = Some r" "Next r = (if 0 < len then of_nat (Suc a) else 0)" by auto
  have ua: "unat (of_nat a :: u32) = a" using Suc.prems(3) by (simp add: unat_of_nat_32)
  have a0: "(of_nat a :: u32) \<noteq> 0" using Suc.prems(2,3) ua by (metis not_one_le_zero unat_0)
  have IH: "is_chain NR (if len = 0 then 0 else of_nat (Suc a)) (map of_nat [Suc a ..< Suc a + len])"
  proof (rule Suc.IH)
    show "\<forall>t<len. \<exists>r. slot_read NR (Suc a + t) = Some r \<and>
              Next r = (if Suc t < len then of_nat (Suc a + Suc t) else 0)"
      using Suc.prems(1) by (metis Suc_less_eq add_Suc add_Suc_right)
    show "1 \<le> Suc a" by simp
    show "Suc a + len \<le> 2 ^ 32" using Suc.prems(3) by simp
  qed
  have E: "map of_nat [a ..< a + Suc len] = (of_nat a :: u32) # map of_nat [Suc a ..< Suc a + len]"
    by (simp add: upt_conv_Cons del: upt_Suc)
  show ?case unfolding E using r ua a0 IH by (cases "len = 0") (simp_all del: upt_Suc)
qed

lemma cell_load_cells_all:
  "k \<le> length (Cells g) \<Longrightarrow> cell_load g k = Some (cells_all g ! k)"
  by (auto simp: cell_load_def cells_all_def nth_append)

lemma chains_ok_length: "chains_ok g cs \<Longrightarrow> length cs = Suc (length (Cells g))"
  by (auto simp: chains_ok_def cells_all_def dest: list_all2_lengthD)

lemma chains_ok_nth:
  "chains_ok g cs \<Longrightarrow> m < length cs \<Longrightarrow>
     is_chain (Storage (References g)) (cells_all g ! m) (cs ! m)"
  by (auto simp: chains_ok_def list_all2_conv_all_nth)

lemma in_concat_nth: "m < length cs \<Longrightarrow> j \<in> set (cs ! m) \<Longrightarrow> j \<in> set (concat cs)"
  using nth_mem[of m cs] by auto

lemma chains_ok_link:
  assumes "chains_ok g cs" "j \<in> set (concat cs)"
  shows "j \<noteq> 0 \<and> unat j < unat (Used (References g)) \<and>
         slot_read (Storage (References g)) (unat j) = Some (link_of g j) \<and>
         1 \<le> unat (Ref (link_of g j)) \<and> unat (Ref (link_of g j)) < unat (Used (Entities g))"
proof -
  from assms(2) obtain c where c: "c \<in> set cs" "j \<in> set c" by auto
  then obtain m where m: "m < length cs" "cs ! m = c" by (auto simp: in_set_conv_nth)
  from chains_ok_nth[OF assms(1) m(1)] m(2) c(2)
  have "j \<noteq> 0 \<and> slot_read (Storage (References g)) (unat j) \<noteq> None"
    by (auto dest: is_chain_mem)
  then obtain r where r: "j \<noteq> 0" "slot_read (Storage (References g)) (unat j) = Some r" by auto
  then have "link_of g j = r" by (simp add: link_of_def)
  with r assms show ?thesis by (auto simp: chains_ok_def)
qed

lemma slot_read_mem: "slot_read xs i = Some x \<Longrightarrow> Obj x \<in> set xs"
  by (auto simp: slot_read_def split: if_splits slot.splits dest: nth_mem)

lemma entity_valid:
  assumes "grid_inv g" "1 \<le> unat e" "unat e < unat (Used (Entities g))"
  shows "\<exists>x. slot_read (Storage (Entities g)) (unat e) = Some x \<and> Copied x = 0"
proof -
  from assms have "slot_read (Storage (Entities g)) (unat e) \<noteq> None"
    by (auto simp: grid_inv_def arena_ok_def)
  then obtain x where x: "slot_read (Storage (Entities g)) (unat e) = Some x" by auto
  from slot_read_mem[OF x] assms(1) have "Copied x = 0" by (auto simp: grid_inv_def new_clean_def)
  with x show ?thesis by blast
qed

lemma copy_cap:
  assumes "arena_ok l" "unat (Used l) < 2 ^ 31"
  shows "unat (Used l) \<le> unat (Size (UGridList_copy l))"
proof -
  have "unat (Used l) * 2 < 2 ^ 32" using assms(2) by simp
  then have "unat (Used l * 2) = unat (Used l) * 2"
    by (simp add: unat_word_ariths)
  then show ?thesis using assms(1)
    by (simp add: UGridList_copy_def Let_def unat_min_32 arena_ok_def)
qed

lemma opt_inv_start: "opt_inv g [] (Optimize_start g)"
  by (simp add: opt_inv_def Optimize_start_def UGridList_copy_def Let_def refs_of_def)

lemma Optimize_cells_run:
  assumes inv: "grid_inv g" and cs: "chains_ok g cs" and sz: "size_ok g"
  shows "\<exists>s'. Optimize_cells (cell_offsets g) (Optimize_start g) = Some s' \<and>
           opt_inv g (concat cs) s' \<and>
           (\<forall>m < length cs. cell_load (Grid s') m =
               (if cs ! m = [] then Some 0
                else Some (of_nat (Suc (length (concat (take m cs))))))) \<and>
           length (concat cs) < unat (Used (References g)) \<and>
           length (discover (refs_of g (concat cs))) < unat (Used (Entities g))"
proof -
  let ?N = "length (Cells g)"
  have len: "length cs = Suc ?N" by (rule chains_ok_length[OF cs])
  have off: "cell_offsets g = [0 ..< Suc ?N]" using inv by (simp add: cell_offsets_def grid_inv_def)
  have past: "CellsPast g = 0" using inv by (simp add: grid_inv_def)
  have lastc: "cs ! ?N = []"
  proof -
    have "is_chain (Storage (References g)) (cells_all g ! ?N) (cs ! ?N)"
      using chains_ok_nth[OF cs, of ?N] len by simp
    then show ?thesis using past by (auto simp: cells_all_def dest: is_chain_zero)
  qed
  have heads0: "\<And>m. m < Suc ?N \<Longrightarrow> cs ! m = [] \<Longrightarrow> cell_load g m = Some 0"
  proof -
    fix m assume m: "m < Suc ?N" and e: "cs ! m = []"
    have "is_chain (Storage (References g)) (cells_all g ! m) (cs ! m)"
      using chains_ok_nth[OF cs, of m] len m by simp
    with e have "cells_all g ! m = 0" by simp
    then show "cell_load g m = Some 0" using m by (simp add: cell_load_cells_all)
  qed
  have arE: "arena_ok (Entities g)" and arR: "arena_ok (References g)"
    using inv by (simp_all add: grid_inv_def)
  have lR: "length (concat cs) < unat (Used (References g))"
  proof -
    have "length (concat cs) < unat (Used (References g)) \<or>
          (concat cs = [] \<and> unat (Used (References g)) = 0)"
      using cs chains_ok_link[OF cs]
      by (intro length_less_of_unat_bound) (auto simp: chains_ok_def unat_gt_0)
    then show ?thesis using arR by (auto simp: arena_ok_def)
  qed
  have lE: "length (discover (refs_of g (concat cs))) < unat (Used (Entities g))"
  proof -
    have "length (discover (refs_of g (concat cs))) < unat (Used (Entities g)) \<or>
          (discover (refs_of g (concat cs)) = [] \<and> unat (Used (Entities g)) = 0)"
    proof (rule length_less_of_unat_bound)
      show "distinct (discover (refs_of g (concat cs)))" by simp
      show "\<forall>x\<in>set (discover (refs_of g (concat cs))). 0 < unat x \<and> unat x < unat (Used (Entities g))"
      proof
        fix x assume "x \<in> set (discover (refs_of g (concat cs)))"
        then obtain j where j: "j \<in> set (concat cs)" "x = Ref (link_of g j)"
          by (auto simp: refs_of_def)
        from chains_ok_link[OF cs j(1)] j(2)
        show "0 < unat x \<and> unat x < unat (Used (Entities g))" by simp
      qed
    qed
    then show ?thesis using arE by (auto simp: arena_ok_def)
  qed
  have "\<exists>s'. Optimize_cells [0 ..< Suc ?N] (Optimize_start g) = Some s' \<and>
           opt_inv g ([] @ concat cs) s' \<and>
           (\<forall>m < length [0 ..< Suc ?N]. cell_load (Grid s') ([0 ..< Suc ?N] ! m) =
               (if cs ! m = [] then cell_load (Grid (Optimize_start g)) ([0 ..< Suc ?N] ! m)
                else Some (of_nat (Suc (length ([] :: u32 list) + length (concat (take m cs))))))) \<and>
           (\<forall>k'. k' \<notin> set [0 ..< Suc ?N] \<longrightarrow>
               cell_load (Grid s') k' = cell_load (Grid (Optimize_start g)) k')"
  proof (rule Optimize_cells_spec[OF opt_inv_start])
    show "length cs = length [0 ..< Suc ?N]" using len by simp
    show "distinct [0 ..< Suc ?N]" by simp
    show "\<forall>m<length [0 ..< Suc ?N]. \<exists>h. cell_load (Grid (Optimize_start g)) ([0 ..< Suc ?N] ! m) = Some h \<and>
             is_chain (Storage (References g)) h (cs ! m)"
    proof (intro allI impI)
      fix m assume "m < length [0 ..< Suc ?N]"
      then have m: "m < Suc ?N" by simp
      then have n: "[0 ..< Suc ?N] ! m = m" by (metis add_0 nth_upt)
      have "cell_load g m = Some (cells_all g ! m)" using m by (simp add: cell_load_cells_all)
      moreover have "is_chain (Storage (References g)) (cells_all g ! m) (cs ! m)"
        using chains_ok_nth[OF cs, of m] len m by simp
      ultimately show "\<exists>h. cell_load (Grid (Optimize_start g)) ([0 ..< Suc ?N] ! m) = Some h \<and>
             is_chain (Storage (References g)) h (cs ! m)"
        unfolding n by (simp add: Optimize_start_def)
    qed
    show "\<forall>m<length [0 ..< Suc ?N]. cs ! m \<noteq> [] \<longrightarrow> [0 ..< Suc ?N] ! m < length (Cells g)"
    proof (intro allI impI)
      fix m assume "m < length [0 ..< Suc ?N]" and ne: "cs ! m \<noteq> []"
      then have m: "m < Suc ?N" by simp
      then have n: "[0 ..< Suc ?N] ! m = m" by (metis add_0 nth_upt)
      from ne lastc have "m \<noteq> ?N" by auto
      with m show "[0 ..< Suc ?N] ! m < length (Cells g)" unfolding n by simp
    qed
    show "\<forall>j\<in>set (concat cs). \<exists>x. slot_read (Storage (Entities g)) (unat (Ref (link_of g j))) = Some x \<and> Copied x = 0"
    proof
      fix j assume "j \<in> set (concat cs)"
      from chains_ok_link[OF cs this]
      show "\<exists>x. slot_read (Storage (Entities g)) (unat (Ref (link_of g j))) = Some x \<and> Copied x = 0"
        by (intro entity_valid[OF inv]) simp_all
    qed
    show "length ([] @ concat cs) < unat (Size (UGridList_copy (References g)))"
      using lR copy_cap[OF arR] sz by (simp add: size_ok_def)
    show "length (discover (refs_of g ([] @ concat cs))) < unat (Size (UGridList_copy (Entities g)))"
      using lE copy_cap[OF arE] sz by (simp add: size_ok_def)
  qed
  then obtain s' where run: "Optimize_cells [0 ..< Suc ?N] (Optimize_start g) = Some s'"
    and inv': "opt_inv g (concat cs) s'"
    and heads: "\<And>m. m < Suc ?N \<Longrightarrow> cell_load (Grid s') ([0 ..< Suc ?N] ! m) =
               (if cs ! m = [] then cell_load (Grid (Optimize_start g)) ([0 ..< Suc ?N] ! m)
                else Some (of_nat (Suc (length (concat (take m cs))))))"
    by auto
  have "\<forall>m < length cs. cell_load (Grid s') m =
               (if cs ! m = [] then Some 0
                else Some (of_nat (Suc (length (concat (take m cs))))))"
  proof (intro allI impI)
    fix m assume "m < length cs"
    then have m: "m < Suc ?N" using len by simp
    then have n: "[0 ..< Suc ?N] ! m = m" by (metis add_0 nth_upt)
    from heads[OF m] heads0[OF m]
    show "cell_load (Grid s') m =
               (if cs ! m = [] then Some 0
                else Some (of_nat (Suc (length (concat (take m cs))))))"
      unfolding n by (simp add: Optimize_start_def)
  qed
  with run inv' off lR lE show ?thesis by auto
qed

section \<open>Compaction as a whole\<close>

lemma Optimize_raw:
  assumes inv: "grid_inv g" and cs: "chains_ok g cs" and sz: "size_ok g"
  shows "\<exists>g'. Optimize g = Some g' \<and>
     length (Cells g') = length (Cells g) \<and> CellsEnd g' = CellsEnd g \<and>
     CellsPast g' = CellsPast g \<and> GridCells g' = GridCells g \<and>
     CellDim g' = CellDim g \<and> InverseCellDim g' = InverseCellDim g \<and>
     (\<forall>m < length cs. cell_load g' m =
         (if cs ! m = [] then Some 0 else Some (of_nat (Suc (length (concat (take m cs))))))) \<and>
     Free (Entities g') = 0 \<and>
     unat (Used (Entities g')) = Suc (length (discover (refs_of g (concat cs)))) \<and>
     length (Storage (Entities g')) = unat (Size (Entities g')) \<and>
     Suc (length (discover (refs_of g (concat cs)))) \<le> unat (Size (Entities g')) \<and>
     length (discover (refs_of g (concat cs))) < unat (Used (Entities g)) \<and>
     new_clean (Storage (Entities g')) \<and>
     (\<forall>p < length (discover (refs_of g (concat cs))).
         slot_read (Storage (Entities g')) (Suc p) =
         slot_read (Storage (Entities g)) (unat (discover (refs_of g (concat cs)) ! p))) \<and>
     Free (References g') = 0 \<and>
     unat (Used (References g')) = Suc (length (concat cs)) \<and>
     length (Storage (References g')) = unat (Size (References g')) \<and>
     Suc (length (concat cs)) \<le> unat (Size (References g')) \<and>
     length (concat cs) < unat (Used (References g)) \<and>
     (\<forall>p < length (concat cs). slot_read (Storage (References g')) (Suc p) =
          Some \<lparr>Next = (if Next (link_of g (concat cs ! p)) \<noteq> 0 then of_nat (p + 2) else 0),
                Ref = of_nat (Suc (index_of (discover (refs_of g (concat cs)))
                                     (Ref (link_of g (concat cs ! p)))))\<rparr>)"
proof -
  let ?D = "discover (refs_of g (concat cs))"
  from Optimize_cells_run[OF inv cs sz] obtain s' where
    run: "Optimize_cells (cell_offsets g) (Optimize_start g) = Some s'"
    and oi: "opt_inv g (concat cs) s'"
    and heads: "\<forall>m < length cs. cell_load (Grid s') m =
               (if cs ! m = [] then Some 0
                else Some (of_nat (Suc (length (concat (take m cs))))))"
    and lR: "length (concat cs) < unat (Used (References g))"
    and lE: "length ?D < unat (Used (Entities g))"
    by blast
  note I = oi[unfolded opt_inv_def Let_def]
  have arE: "arena_ok (Entities g)" and arR: "arena_ok (References g)"
    using inv by (simp_all add: grid_inv_def)
  have capE: "Suc (length ?D) \<le> unat (Size (UGridList_copy (Entities g)))"
    using lE copy_cap[OF arE] sz by (simp add: size_ok_def)
  have capR: "Suc (length (concat cs)) \<le> unat (Size (UGridList_copy (References g)))"
    using lR copy_cap[OF arR] sz by (simp add: size_ok_def)
  have uE: "unat (of_nat (Suc (length ?D)) :: u32) = Suc (length ?D)"
    using capE unat_less_32[of "Size (UGridList_copy (Entities g))"]
    by (intro unat_of_nat_32) simp
  have uR: "unat (of_nat (Suc (length (concat cs))) :: u32) = Suc (length (concat cs))"
    using capR unat_less_32[of "Size (UGridList_copy (References g))"]
    by (intro unat_of_nat_32) simp
  have cl: "new_clean (Storage (NewEntities s'))"
    by (rule Optimize_cells_clean[OF run])
       (simp add: Optimize_start_def UGridList_copy_def new_clean_def Let_def)
  have opt: "Optimize g = Some (Optimize_finish s')"
    using run by (simp add: Optimize_def)
  have cl': "\<And>h. cell_load (Optimize_finish s') h = cell_load (Grid s') h"
    by (simp add: Optimize_finish_def cell_load_def)
  show ?thesis
    apply (rule exI[of _ "Optimize_finish s'"])
    apply (intro conjI)
    using opt apply simp
    using I apply (simp add: Optimize_finish_def)
    using I apply (simp add: Optimize_finish_def)
    using I apply (simp add: Optimize_finish_def)
    using I apply (simp add: Optimize_finish_def)
    using I apply (simp add: Optimize_finish_def)
    using I apply (simp add: Optimize_finish_def)
    using heads apply (simp add: cl')
    using I apply (simp add: Optimize_finish_def SetEnd_def)
    using I uE apply (simp add: Optimize_finish_def SetEnd_def)
    using I apply (simp add: Optimize_finish_def SetEnd_def)
    using I capE apply (simp add: Optimize_finish_def SetEnd_def)
    using lE apply simp
    using cl apply (simp add: Optimize_finish_def SetEnd_def)
    using I apply (simp add: Optimize_finish_def SetEnd_def)
    using I apply (simp add: Optimize_finish_def SetEnd_def)
    using I uR apply (simp add: Optimize_finish_def SetEnd_def)
    using I apply (simp add: Optimize_finish_def SetEnd_def)
    using I capR apply (simp add: Optimize_finish_def SetEnd_def)
    using lR apply simp
    using I apply (simp add: Optimize_finish_def SetEnd_def)
    done
qed

lemma length_new_chains [simp]: "length (new_chains cs) = length cs"
  by (simp add: new_chains_def)

lemma new_chains_nth:
  "m < length cs \<Longrightarrow>
     new_chains cs ! m = map of_nat [Suc (length (concat (take m cs))) ..<
                                     Suc (length (concat (take m cs))) + length (cs ! m)]"
  by (simp add: new_chains_def)

lemma new_chains_snoc:
  "new_chains (cs @ [c]) =
     new_chains cs @ [map of_nat [Suc (length (concat cs)) ..< Suc (length (concat cs)) + length c]]"
proof -
  define f :: "nat \<Rightarrow> u32 list" where
    "f = (\<lambda>m. map of_nat [Suc (length (concat (take m (cs @ [c])))) ..<
                 Suc (length (concat (take m (cs @ [c])))) + length ((cs @ [c]) ! m)])"
  have 1: "new_chains (cs @ [c]) = map f [0 ..< length cs] @ [f (length cs)]"
    unfolding new_chains_def f_def by simp
  have 2: "map f [0 ..< length cs] = new_chains cs"
    unfolding new_chains_def f_def by (rule map_cong) (simp_all add: nth_append)
  have 3: "f (length cs) = map of_nat [Suc (length (concat cs)) ..< Suc (length (concat cs)) + length c]"
    unfolding f_def by simp
  show ?thesis unfolding 1 2 3 ..
qed

lemma concat_new_chains:
  "concat (new_chains cs) = map of_nat [1 ..< Suc (length (concat cs))]"
proof (induction cs rule: rev_induct)
  case Nil
  then show ?case by (simp add: new_chains_def)
next
  case (snoc c cs)
  have "[1 ..< Suc (length (concat cs) + length c)] =
        [1 ..< Suc (length (concat cs))] @ [Suc (length (concat cs)) ..< Suc (length (concat cs)) + length c]"
    using upt_add_eq_append[of 1 "Suc (length (concat cs))" "length c"] by simp
  with snoc show ?case by (simp add: new_chains_snoc del: upt_Suc)
qed

lemma distinct_map_of_nat:
  "n \<le> 2 ^ 32 \<Longrightarrow> distinct (map (of_nat :: nat \<Rightarrow> u32) [a ..< n])"
proof -
  assume n: "n \<le> 2 ^ 32"
  have "inj_on (of_nat :: nat \<Rightarrow> u32) (set [a ..< n])"
  proof (rule inj_onI)
    fix x y assume "x \<in> set [a ..< n]" "y \<in> set [a ..< n]" and e: "(of_nat x :: u32) = of_nat y"
    then have "x < 2 ^ 32" "y < 2 ^ 32" using n by auto
    then have "unat (of_nat x :: u32) = x" "unat (of_nat y :: u32) = y"
      by (simp_all add: unat_of_nat_32)
    with e show "x = y" by metis
  qed
  then show ?thesis by (simp add: distinct_map)
qed

lemma new_chains_nth_length:
  "m < length cs \<Longrightarrow> length (new_chains cs ! m) = length (cs ! m)"
  by (simp add: new_chains_def del: upt_Suc)

lemma new_chains_nth_nth:
  "m < length cs \<Longrightarrow> t < length (cs ! m) \<Longrightarrow>
     new_chains cs ! m ! t = of_nat (Suc (length (concat (take m cs))) + t)"
  by (simp add: new_chains_def del: upt_Suc)

lemma Optimize_spec:
  assumes inv: "grid_inv g" and cs: "chains_ok g cs" and sz: "size_ok g"
  shows "\<exists>g'. Optimize g = Some g' \<and> grid_inv g' \<and> chains_ok g' (new_chains cs) \<and> size_ok g' \<and>
     length (Cells g') = length (Cells g) \<and> GridCells g' = GridCells g \<and>
     CellDim g' = CellDim g \<and> InverseCellDim g' = InverseCellDim g \<and>
     unat (Used (Entities g')) = Suc (length (discover (refs_of g (concat cs)))) \<and>
     (\<forall>p < length (discover (refs_of g (concat cs))).
         slot_read (Storage (Entities g')) (Suc p) =
         slot_read (Storage (Entities g)) (unat (discover (refs_of g (concat cs)) ! p))) \<and>
     (\<forall>m < length cs. refs_of g' (new_chains cs ! m) =
         map (\<lambda>e. of_nat (Suc (index_of (discover (refs_of g (concat cs))) e))) (refs_of g (cs ! m)))"
proof -
  define js where "js = concat cs"
  define D where "D = discover (refs_of g js)"
  define off where "off = (\<lambda>m. length (concat (take m cs)))"
  from Optimize_raw[OF inv cs sz, folded js_def, folded D_def] obtain g' where
    opt: "Optimize g = Some g'"
    and fr: "length (Cells g') = length (Cells g)" "CellsEnd g' = CellsEnd g"
      "CellsPast g' = CellsPast g" "GridCells g' = GridCells g"
      "CellDim g' = CellDim g" "InverseCellDim g' = InverseCellDim g"
    and heads: "\<And>m. m < length cs \<Longrightarrow> cell_load g' m =
         (if cs ! m = [] then Some 0 else Some (of_nat (Suc (off m))))"
    and E: "Free (Entities g') = 0" "unat (Used (Entities g')) = Suc (length D)"
      "length (Storage (Entities g')) = unat (Size (Entities g'))"
      "Suc (length D) \<le> unat (Size (Entities g'))"
      "length D < unat (Used (Entities g))" "new_clean (Storage (Entities g'))"
    and Es: "\<And>p. p < length D \<Longrightarrow> slot_read (Storage (Entities g')) (Suc p) =
         slot_read (Storage (Entities g)) (unat (D ! p))"
    and R: "Free (References g') = 0" "unat (Used (References g')) = Suc (length js)"
      "length (Storage (References g')) = unat (Size (References g'))"
      "Suc (length js) \<le> unat (Size (References g'))"
      "length js < unat (Used (References g))"
    and Rs: "\<And>p. p < length js \<Longrightarrow> slot_read (Storage (References g')) (Suc p) =
          Some \<lparr>Next = (if Next (link_of g (js ! p)) \<noteq> 0 then of_nat (p + 2) else 0),
                Ref = of_nat (Suc (index_of D (Ref (link_of g (js ! p)))))\<rparr>"
    unfolding off_def by blast
  have n32: "Suc (length js) < 2 ^ 32"
    using R(4) unat_less_32[of "Size (References g')"] by simp
  have d32: "Suc (length D) < 2 ^ 32"
    using E(4) unat_less_32[of "Size (Entities g')"] by simp
  have len: "length cs = Suc (length (Cells g))" by (rule chains_ok_length[OF cs])
  have setD: "set D = set (refs_of g js)" by (simp add: D_def)
  \<comment> \<open>the record written for the link at position \<open>t\<close> of the chain of head \<open>m\<close>\<close>
  have rec: "\<And>m t. m < length cs \<Longrightarrow> t < length (cs ! m) \<Longrightarrow>
       slot_read (Storage (References g')) (Suc (off m) + t) =
         Some \<lparr>Next = (if Suc t < length (cs ! m) then of_nat (Suc (off m) + Suc t) else 0),
               Ref = of_nat (Suc (index_of D (Ref (link_of g (cs ! m ! t)))))\<rparr>"
  proof -
    fix m t assume m: "m < length cs" and t: "t < length (cs ! m)"
    from nth_concat_take[OF m t] have p: "js ! (off m + t) = cs ! m ! t" "off m + t < length js"
      by (simp_all add: js_def off_def)
    from is_chain_next[OF chains_ok_nth[OF cs m] t]
    have nx: "Next (link_of g (cs ! m ! t)) \<noteq> 0 \<longleftrightarrow> Suc t < length (cs ! m)"
      by (auto simp: link_of_def)
    from Rs[OF p(2)] p(1) nx show "slot_read (Storage (References g')) (Suc (off m) + t) =
         Some \<lparr>Next = (if Suc t < length (cs ! m) then of_nat (Suc (off m) + Suc t) else 0),
               Ref = of_nat (Suc (index_of D (Ref (link_of g (cs ! m ! t)))))\<rparr>"
      by simp
  qed
  have offb: "\<And>m. m < length cs \<Longrightarrow> off m + length (cs ! m) \<le> length js"
  proof -
    fix m assume m: "m < length cs"
    show "off m + length (cs ! m) \<le> length js"
    proof (cases "cs ! m")
      case Nil
      have "length (concat (take m cs)) \<le> length (concat (take m cs @ drop m cs))"
        by (simp only: concat_append length_append)
      then show ?thesis using Nil by (simp add: off_def js_def)
    next
      case (Cons a as)
      then have "length (cs ! m) - 1 < length (cs ! m)" by simp
      from nth_concat_take[OF m this] show ?thesis using Cons by (simp add: off_def js_def)
    qed
  qed
  have chain: "\<And>m. m < length cs \<Longrightarrow>
      is_chain (Storage (References g')) (cells_all g' ! m) (new_chains cs ! m)"
  proof -
    fix m assume m: "m < length cs"
    have "is_chain (Storage (References g'))
            (if length (cs ! m) = 0 then 0 else of_nat (Suc (off m)))
            (map of_nat [Suc (off m) ..< Suc (off m) + length (cs ! m)])"
    proof (rule is_chain_block)
      show "\<forall>t<length (cs ! m). \<exists>r. slot_read (Storage (References g')) (Suc (off m) + t) = Some r \<and>
               Next r = (if Suc t < length (cs ! m) then of_nat (Suc (off m) + Suc t) else 0)"
        using rec[OF m] by simp
      show "1 \<le> Suc (off m)" by simp
      show "Suc (off m) + length (cs ! m) \<le> 2 ^ 32" using offb[OF m] n32 by simp
    qed
    moreover have "cells_all g' ! m = (if length (cs ! m) = 0 then 0 else of_nat (Suc (off m)))"
      using heads[OF m] cell_load_cells_all[of m g'] m len fr(1) by (auto split: if_splits)
    ultimately show "is_chain (Storage (References g')) (cells_all g' ! m) (new_chains cs ! m)"
      using new_chains_nth[OF m] by (simp add: off_def)
  qed
  have cnc: "concat (new_chains cs) = map of_nat [1 ..< Suc (length js)]"
    unfolding js_def by (rule concat_new_chains)
  have bounds: "\<forall>j \<in> set (concat (new_chains cs)).
         unat j < unat (Used (References g')) \<and>
         (\<forall>r. slot_read (Storage (References g')) (unat j) = Some r \<longrightarrow>
              1 \<le> unat (Ref r) \<and> unat (Ref r) < unat (Used (Entities g')))"
  proof
    fix j assume "j \<in> set (concat (new_chains cs))"
    then obtain q where q: "1 \<le> q" "q < Suc (length js)" "j = of_nat q"
      unfolding cnc by auto
    then have uj: "unat j = q" using n32 by (simp add: unat_of_nat_32)
    obtain p where p: "q = Suc p" "p < length js" using q by (cases q) auto
    have "Ref (link_of g (js ! p)) \<in> set D" using p(2) setD by (simp add: refs_of_def)
    then have idx: "index_of D (Ref (link_of g (js ! p))) < length D" by (rule index_of_less)
    then have ur: "unat (of_nat (Suc (index_of D (Ref (link_of g (js ! p))))) :: u32)
                   = Suc (index_of D (Ref (link_of g (js ! p))))"
      using d32 by (intro unat_of_nat_32) simp
    show "unat j < unat (Used (References g')) \<and>
         (\<forall>r. slot_read (Storage (References g')) (unat j) = Some r \<longrightarrow>
              1 \<le> unat (Ref r) \<and> unat (Ref r) < unat (Used (Entities g')))"
      using uj p Rs[OF p(2)] R(2) E(2) idx ur by simp
  qed
  have cok: "chains_ok g' (new_chains cs)"
    unfolding chains_ok_def
  proof (intro conjI)
    show "list_all2 (is_chain (Storage (References g'))) (cells_all g') (new_chains cs)"
      unfolding list_all2_conv_all_nth
      using chain len fr(1) by (simp add: cells_all_def)
    show "distinct (concat (new_chains cs))"
      unfolding cnc using n32 by (intro distinct_map_of_nat) simp
    show "\<forall>j \<in> set (concat (new_chains cs)).
         unat j < unat (Used (References g')) \<and>
         (\<forall>r. slot_read (Storage (References g')) (unat j) = Some r \<longrightarrow>
              1 \<le> unat (Ref r) \<and> unat (Ref r) < unat (Used (Entities g')))"
      by (rule bounds)
  qed
  have arE: "arena_ok (Entities g')"
    unfolding arena_ok_def
  proof (intro conjI allI impI)
    fix j assume "1 \<le> j \<and> j < unat (Used (Entities g'))"
    then obtain p where p: "j = Suc p" "p < length D" using E(2) by (cases j) auto
    then have "D ! p \<in> set (refs_of g js)" using setD nth_mem[of p D] by simp
    then obtain i where i: "i \<in> set js" "D ! p = Ref (link_of g i)" by (auto simp: refs_of_def)
    from chains_ok_link[OF cs i(1)[unfolded js_def]] i(2)
    have "\<exists>x. slot_read (Storage (Entities g)) (unat (D ! p)) = Some x \<and> Copied x = 0"
      by (intro entity_valid[OF inv]) simp_all
    with Es[OF p(2)] p(1) show "slot_read (Storage (Entities g')) j \<noteq> None" by auto
  qed (use E in simp_all)
  have arR: "arena_ok (References g')"
    unfolding arena_ok_def
  proof (intro conjI allI impI)
    fix j assume "1 \<le> j \<and> j < unat (Used (References g'))"
    then obtain p where p: "j = Suc p" "p < length js" using R(2) by (cases j) auto
    with Rs[OF p(2)] show "slot_read (Storage (References g')) j \<noteq> None" by simp
  qed (use R in simp_all)
  have ginv: "grid_inv g'"
    unfolding grid_inv_def
    using arE arR fr inv E(6) cok by (auto simp: grid_inv_def)
  have sok: "size_ok g'"
    using sz E(2,5) R(2,5) by (simp add: size_ok_def)
  have refs: "\<forall>m < length cs. refs_of g' (new_chains cs ! m) =
         map (\<lambda>e. of_nat (Suc (index_of D e))) (refs_of g (cs ! m))"
  proof (intro allI impI)
    fix m assume m: "m < length cs"
    show "refs_of g' (new_chains cs ! m) =
         map (\<lambda>e. of_nat (Suc (index_of D e))) (refs_of g (cs ! m))"
    proof (rule nth_equalityI)
      show "length (refs_of g' (new_chains cs ! m)) =
            length (map (\<lambda>e. of_nat (Suc (index_of D e))) (refs_of g (cs ! m)))"
        using new_chains_nth_length[OF m] by (simp add: refs_of_def)
    next
      fix t assume "t < length (refs_of g' (new_chains cs ! m))"
      then have t: "t < length (cs ! m)" using new_chains_nth_length[OF m] by (simp add: refs_of_def)
      have "Suc (off m) + t < 2 ^ 32" using offb[OF m] t n32 by simp
      then have u: "unat (of_nat (Suc (off m) + t) :: u32) = Suc (off m) + t"
        by (rule unat_of_nat_32)
      have "new_chains cs ! m ! t = of_nat (Suc (off m) + t)"
        using new_chains_nth_nth[OF m t] by (simp add: off_def)
      then have "link_of g' (new_chains cs ! m ! t) =
          \<lparr>Next = (if Suc t < length (cs ! m) then of_nat (Suc (off m) + Suc t) else 0),
           Ref = of_nat (Suc (index_of D (Ref (link_of g (cs ! m ! t)))))\<rparr>"
        using rec[OF m t] u by (simp add: link_of_def)
      then show "refs_of g' (new_chains cs ! m) ! t =
            map (\<lambda>e. of_nat (Suc (index_of D e))) (refs_of g (cs ! m)) ! t"
        using t new_chains_nth_length[OF m] by (simp add: refs_of_def)
    qed
  qed
  show ?thesis
    apply (rule exI[of _ g'])
    using opt ginv cok sok fr E(2) Es refs
    unfolding D_def js_def by simp
qed

section \<open>Tick on the grids a program can build\<close>

lemma Tick_pairs_spec:
  "is_chain R h c \<Longrightarrow>
     Tick_pairs R G h C = Some (pairs_count G (map (\<lambda>j. Ref (the (slot_read R (unat j)))) c) C)"
proof (induction c arbitrary: h C)
  case Nil
  then show ?case by (simp add: Tick_pairs.simps)
next
  case (Cons j c)
  from Cons.prems obtain r where r: "h = j" "j \<noteq> 0" "slot_read R (unat j) = Some r"
    and ch: "is_chain R (Next r) c"
    by (auto split: option.splits)
  show ?case
    using r Cons.IH[OF ch] by (subst Tick_pairs.simps) simp
qed

lemma Tick_chain_spec:
  "is_chain R h c \<Longrightarrow>
     Tick_chain R G h L C = Some (chain_count G (map (\<lambda>j. Ref (the (slot_read R (unat j)))) c) L C)"
proof (induction c arbitrary: h L C)
  case Nil
  then show ?case by (simp add: Tick_chain.simps)
next
  case (Cons j c)
  from Cons.prems obtain r where r: "h = j" "j \<noteq> 0" "slot_read R (unat j) = Some r"
    and ch: "is_chain R (Next r) c"
    by (auto split: option.splits)
  show ?case
    using r Cons.IH[OF ch] Tick_pairs_spec[OF ch] by (subst Tick_chain.simps) simp
qed

lemma chains_ok_cell_refs:
  assumes cs: "chains_ok g cs" and m: "m < length cs"
  shows "cell_refs g m = refs_of g (cs ! m)"
proof -
  have len: "length cs = Suc (length (Cells g))" by (rule chains_ok_length[OF cs])
  have ch: "is_chain (Storage (References g)) (cells_all g ! m) (cs ! m)"
    by (rule chains_ok_nth[OF cs m])
  have "distinct (concat cs)" using cs by (simp add: chains_ok_def)
  then have d: "distinct (cs ! m)"
    using m by (simp add: distinct_concat_iff)
  have "\<forall>j \<in> set (cs ! m). unat j < length (Storage (References g))"
  proof
    fix j assume "j \<in> set (cs ! m)"
    from is_chain_mem[OF ch this] show "unat j < length (Storage (References g))"
      by (auto dest: slot_read_SomeD)
  qed
  with d have "length (cs ! m) \<le> length (Storage (References g))"
    by (rule length_le_of_unat_bound)
  from chain_is_chain[OF ch this] cell_load_cells_all[of m g] m len
  show ?thesis by (simp add: cell_refs_def refs_of_def link_of_def)
qed

lemma Tick_cells_spec:
  assumes cs: "chains_ok g cs" and ks: "\<forall>k \<in> set ks. k < length cs"
  shows "Tick_cells g ks G C = Some (cells_count (map (cell_refs g) ks) G C)"
  using ks
proof (induction ks arbitrary: G C)
  case Nil
  then show ?case by simp
next
  case (Cons k ks)
  then have k: "k < length cs" by simp
  have len: "length cs = Suc (length (Cells g))" by (rule chains_ok_length[OF cs])
  have l: "cell_load g k = Some (cells_all g ! k)" using k len by (simp add: cell_load_cells_all)
  have c: "Tick_chain (Storage (References g)) G (cells_all g ! k) 0 C =
        Some (chain_count G (cell_refs g k) 0 C)"
    using Tick_chain_spec[OF chains_ok_nth[OF cs k]] chains_ok_cell_refs[OF cs k]
    by (simp add: refs_of_def link_of_def)
  show ?case
    using l c Cons.IH Cons.prems by (simp split: prod.splits)
qed

lemma scan_spec:
  assumes "grid_inv g" "chains_ok g cs"
  shows "Tick_cells g (cell_offsets g) 0 0 = Some (scan_count g)"
  unfolding scan_count_def
  using assms chains_ok_length[OF assms(2)]
  by (intro Tick_cells_spec[OF assms(2)]) (auto simp: cell_offsets_def grid_inv_def)

lemma grid_inv_new: "grid_inv (UGrid_new ops (\<lambda>_. 0) GC CD)"
proof -
  let ?g = "UGrid_new ops (\<lambda>_. 0) GC CD"
  let ?n = "unat (CellX GC * CellY GC)"
  have R: "Storage (References ?g) = []" and C: "cells_all ?g = map (\<lambda>_. 0) [0 ..< ?n] @ [0]"
    by (simp_all add: UGrid_new_def Let_def UGridList_default_def cells_all_def)
  have "list_all2 (is_chain []) (map (\<lambda>_. 0) [0 ..< ?n]) (replicate ?n [])"
    by (simp add: list_all2_conv_all_nth)
  then have "list_all2 (is_chain []) (map (\<lambda>_. 0) [0 ..< ?n] @ [0]) (replicate ?n [] @ [[]])"
    by (rule list_all2_appendI) simp
  then have "chains_ok ?g (replicate ?n [] @ [[]])"
    unfolding chains_ok_def R C by simp
  then have "\<exists>cs. chains_ok ?g cs" by blast
  then show ?thesis
    by (simp add: grid_inv_def UGrid_new_def Let_def arena_ok_def UGridList_default_def
                  new_clean_def slot_read_def)
qed

lemma Tick_spec:
  assumes inv: "grid_inv g" and sz: "size_ok g"
  shows "\<exists>g'. Optimize g = Some g' \<and> grid_inv g' \<and> size_ok g' \<and>
           Tick g = Some \<lparr>Returned = Void, GridAfter = g',
              Printed = [Number (scan_count g'), Text '' registered broad collisions'', Endl]\<rparr>"
proof -
  from inv obtain cs where cs: "chains_ok g cs" by (auto simp: grid_inv_def)
  from Optimize_spec[OF inv cs sz] obtain g' where
    g': "Optimize g = Some g'" "grid_inv g'" "chains_ok g' (new_chains cs)" "size_ok g'"
    by blast
  from scan_spec[OF g'(2,3)] g' show ?thesis
    by (simp add: Tick_def)
qed

lemma reachable_inv: "reachable ops g \<Longrightarrow> grid_inv g"
proof (induction rule: reachable.induct)
  case (constructed GC CD)
  show ?case by (rule grid_inv_new)
next
  case (inserted g e g')
  then show ?case by (blast intro: Insert_inv)
next
  case (ticked g r)
  from Tick_spec[OF ticked.IH ticked.hyps(2)] ticked.hyps(3) show ?case by auto
qed

text \<open>
  C2, amended. On every grid built by \<open>Insert\<close> and \<open>Tick\<close> with fewer than \<open>2^31\<close>
  slots in use, \<open>Tick\<close> finishes: it runs \<open>Optimize\<close>, which finishes too and whose result
  is the grid that \<open>Tick\<close> leaves; it returns no value; and it prints the final value of
  its counter \<open>Collisions\<close>, which is the watermark scan \<open>scan_count\<close> over the chains of
  the compacted grid, followed by the text and the end of line.
\<close>

theorem Tick_compacts_then_prints:
  "reachable ops g \<Longrightarrow> size_ok g \<Longrightarrow>
     \<exists>g'. Optimize g = Some g' \<and>
          Tick g = Some \<lparr>Returned = Void, GridAfter = g',
              Printed = [Number (scan_count g'), Text '' registered broad collisions'', Endl]\<rparr>"
  using Tick_spec[OF reachable_inv] by blast

theorem Tick_compacts_then_prints_witness:
  "reachable exact_ops (the grid_two_in_one) \<and> size_ok (the grid_two_in_one) \<and>
   Optimize (the grid_two_in_one) \<noteq> None \<and>
   Tick (the grid_two_in_one) =
     Some \<lparr>Returned = Void, GridAfter = the (Optimize (the grid_two_in_one)),
           Printed = [Number 1, Text '' registered broad collisions'', Endl]\<rparr>"
proof -
  have r0: "reachable exact_ops (zero_grid 1 1)"
    unfolding zero_grid_def by (rule reachable.constructed)
  have c: "Copied (entity 10 10 5 5) = 0" "Copied (entity 12 12 5 5) = 0"
    by (simp_all add: entity_def)
  have i1: "Insert exact_ops (entity 10 10 5 5) (zero_grid 1 1)
            = Some (the (Insert exact_ops (entity 10 10 5 5) (zero_grid 1 1)))"
    by code_simp
  have i2: "Insert exact_ops (entity 12 12 5 5)
              (the (Insert exact_ops (entity 10 10 5 5) (zero_grid 1 1)))
            = Some (the grid_two_in_one)"
    by code_simp
  have r2: "reachable exact_ops (the grid_two_in_one)"
    by (rule reachable.inserted[OF reachable.inserted[OF r0 c(1) i1] c(2) i2])
  have "Used (Entities (the grid_two_in_one)) = 3" "Used (References (the grid_two_in_one)) = 3"
    by code_simp+
  then have sz: "size_ok (the grid_two_in_one)"
    by (simp add: size_ok_def)
  have sc: "scan_count (the (Optimize (the grid_two_in_one))) = 1"
    by code_simp
  from Tick_compacts_then_prints[OF r2 sz] obtain g' where
    "Optimize (the grid_two_in_one) = Some g'"
    "Tick (the grid_two_in_one) = Some \<lparr>Returned = Void, GridAfter = g',
        Printed = [Number (scan_count g'), Text '' registered broad collisions'', Endl]\<rparr>"
    by blast
  with r2 sz sc show ?thesis by simp
qed

section \<open>What compaction preserves\<close>

lemma concat_map_nth_upt: "concat (map ((!) cs) [0 ..< length cs]) = concat cs"
  by (simp add: map_nth)

lemma visit_order_chains:
  assumes inv: "grid_inv g" and cs: "chains_ok g cs"
  shows "visit_order g = refs_of g (concat cs)"
proof -
  have len: "length cs = Suc (length (Cells g))" by (rule chains_ok_length[OF cs])
  have off: "cell_offsets g = [0 ..< length cs]"
    using inv len by (simp add: cell_offsets_def grid_inv_def)
  have "map (cell_refs g) [0 ..< length cs] = map (\<lambda>m. refs_of g (cs ! m)) [0 ..< length cs]"
    by (rule map_cong) (simp_all add: chains_ok_cell_refs[OF cs])
  also have "\<dots> = map (refs_of g) (map ((!) cs) [0 ..< length cs])" by simp
  also have "\<dots> = map (refs_of g) cs" by (simp only: map_nth)
  finally have "visit_order g = concat (map (refs_of g) cs)"
    by (simp add: visit_order_def off)
  also have "\<dots> = refs_of g (concat cs)"
    by (induction cs) (simp_all add: refs_of_def)
  finally show ?thesis .
qed

lemma Optimize_forward:
  assumes inv: "grid_inv g" and sz: "size_ok g"
  shows "\<exists>g'. Optimize g = Some g' \<and> grid_inv g' \<and> size_ok g' \<and>
     length (Cells g') = length (Cells g) \<and> GridCells g' = GridCells g \<and>
     unat (Used (Entities g')) = Suc (length (discover (visit_order g))) \<and>
     (\<forall>p < length (discover (visit_order g)).
         slot_read (Storage (Entities g')) (Suc p) =
         slot_read (Storage (Entities g)) (unat (discover (visit_order g) ! p))) \<and>
     (\<forall>k \<le> length (Cells g). cell_refs g' k = map (forward g) (cell_refs g k))"
proof -
  from inv obtain cs where cs: "chains_ok g cs" by (auto simp: grid_inv_def)
  have len: "length cs = Suc (length (Cells g))" by (rule chains_ok_length[OF cs])
  note vo = visit_order_chains[OF inv cs]
  from Optimize_spec[OF inv cs sz, folded vo] obtain g' where
    g': "Optimize g = Some g'" "grid_inv g'" "chains_ok g' (new_chains cs)" "size_ok g'"
      "length (Cells g') = length (Cells g)" "GridCells g' = GridCells g"
      "unat (Used (Entities g')) = Suc (length (discover (visit_order g)))"
    and Es: "\<forall>p < length (discover (visit_order g)).
         slot_read (Storage (Entities g')) (Suc p) =
         slot_read (Storage (Entities g)) (unat (discover (visit_order g) ! p))"
    and refs: "\<And>m. m < length cs \<Longrightarrow> refs_of g' (new_chains cs ! m) =
         map (\<lambda>e. of_nat (Suc (index_of (discover (visit_order g)) e))) (refs_of g (cs ! m))"
    by blast
  have "\<forall>k \<le> length (Cells g). cell_refs g' k = map (forward g) (cell_refs g k)"
  proof (intro allI impI)
    fix k assume "k \<le> length (Cells g)"
    then have k: "k < length cs" using len by simp
    have "cell_refs g' k = refs_of g' (new_chains cs ! k)"
      using chains_ok_cell_refs[OF g'(3)] k by simp
    also have "\<dots> = map (forward g) (refs_of g (cs ! k))"
      using refs[OF k] by (simp add: forward_def)
    also have "refs_of g (cs ! k) = cell_refs g k"
      using chains_ok_cell_refs[OF cs k] by simp
    finally show "cell_refs g' k = map (forward g) (cell_refs g k)" .
  qed
  with g' Es show ?thesis by blast
qed

lemma forward_unat:
  assumes "e \<in> set (visit_order g)" "Suc (length (discover (visit_order g))) < 2 ^ 32"
  shows "unat (forward g e) = Suc (index_of (discover (visit_order g)) e)"
proof -
  have "index_of (discover (visit_order g)) e < length (discover (visit_order g))"
    using assms(1) by (intro index_of_less) simp
  then show ?thesis using assms(2) unfolding forward_def by (intro unat_of_nat_32) simp
qed

lemma forward_inj:
  assumes "Suc (length (discover (visit_order g))) < 2 ^ 32"
  shows "inj_on (forward g) (set (visit_order g))"
proof (rule inj_onI)
  fix a b assume a: "a \<in> set (visit_order g)" and b: "b \<in> set (visit_order g)"
    and e: "forward g a = forward g b"
  from forward_unat[OF a assms] forward_unat[OF b assms] e
  have "index_of (discover (visit_order g)) a = index_of (discover (visit_order g)) b" by simp
  then show "a = b" using a b by (intro index_of_inj[of a "discover (visit_order g)" b]) simp_all
qed

lemma forward_image:
  assumes "Suc (length (discover (visit_order g))) < 2 ^ 32"
  shows "forward g ` set (visit_order g) =
         {w. 1 \<le> unat w \<and> unat w < Suc (length (discover (visit_order g)))}"
proof (intro set_eqI iffI)
  fix w :: u32 assume "w \<in> forward g ` set (visit_order g)"
  then obtain e where e: "e \<in> set (visit_order g)" "w = forward g e" by auto
  have "index_of (discover (visit_order g)) e < length (discover (visit_order g))"
    using e(1) by (intro index_of_less) simp
  with forward_unat[OF e(1) assms] e(2)
  show "w \<in> {w. 1 \<le> unat w \<and> unat w < Suc (length (discover (visit_order g)))}" by simp
next
  fix w :: u32 assume "w \<in> {w. 1 \<le> unat w \<and> unat w < Suc (length (discover (visit_order g)))}"
  then obtain p where p: "unat w = Suc p" "p < length (discover (visit_order g))"
    by (cases "unat w") auto
  let ?e = "discover (visit_order g) ! p"
  have m: "?e \<in> set (visit_order g)" using p(2) nth_mem[of p "discover (visit_order g)"] by simp
  have "index_of (discover (visit_order g)) ?e = p"
    using p(2) by (intro index_of_nth_distinct) simp_all
  with forward_unat[OF m assms] p(1) have "unat (forward g ?e) = unat w" by simp
  then have "forward g ?e = w" by (simp add: word_unat_eq_iff)
  with m show "w \<in> forward g ` set (visit_order g)" by blast
qed

lemma visit_order_split:
  assumes "CellsEnd g = length (Cells g)" "k1 < length (Cells g)"
  shows "visit_order g = concat (map (cell_refs g) [0 ..< Suc k1]) @
                         concat (map (cell_refs g) [Suc k1 ..< Suc (length (Cells g))])"
proof -
  have "[0 ..< Suc (length (Cells g))] = [0 ..< Suc k1] @ [Suc k1 ..< Suc (length (Cells g))]"
    using assms(2) upt_add_eq_append[of 0 "Suc k1" "length (Cells g) - k1"] by simp
  then show ?thesis
    unfolding visit_order_def cell_offsets_def assms(1)
    by (simp only: map_append concat_append)
qed

lemma forward_mono:
  assumes e: "CellsEnd g = length (Cells g)"
    and d: "Suc (length (discover (visit_order g))) < 2 ^ 32"
    and k: "k1 < k2" "k2 \<le> length (Cells g)"
    and a: "a \<in> set (cell_refs g k1)" and b: "b \<in> set (cell_refs g k2)"
    and first: "\<forall>k \<le> k1. b \<notin> set (cell_refs g k)"
  shows "forward g a < forward g b"
proof -
  let ?V1 = "concat (map (cell_refs g) [0 ..< Suc k1])"
  let ?V2 = "concat (map (cell_refs g) [Suc k1 ..< Suc (length (Cells g))])"
  have k1: "k1 < length (Cells g)" using k by simp
  have V: "visit_order g = ?V1 @ ?V2" by (rule visit_order_split[OF e k1])
  have a1: "a \<in> set ?V1" using a by auto
  have b1: "b \<notin> set ?V1" using first by auto
  have "k2 \<in> set [Suc k1 ..< Suc (length (Cells g))]" using k by (simp del: upt_Suc)
  then have "cell_refs g k2 \<in> set (map (cell_refs g) [Suc k1 ..< Suc (length (Cells g))])"
    unfolding set_map by (rule imageI)
  with b have b2: "b \<in> set ?V2" unfolding set_concat by blast
  have D: "discover (visit_order g) = discover ?V1 @ filter (\<lambda>x. x \<notin> set ?V1) (discover ?V2)"
    unfolding V by (rule discover_append)
  have ia: "index_of (discover (visit_order g)) a < length (discover ?V1)"
    unfolding D using a1 by (simp add: index_of_append index_of_less)
  have ib: "length (discover ?V1) \<le> index_of (discover (visit_order g)) b"
    unfolding D using b1 by (simp add: index_of_append_notin)
  have av: "a \<in> set (visit_order g)"
    unfolding V set_append using a1 by blast
  have bv: "b \<in> set (visit_order g)"
    unfolding V set_append using b2 by blast
  from forward_unat[OF av d] forward_unat[OF bv d] ia ib
  show ?thesis by (simp add: word_less_nat_alt)
qed

lemma Optimize_renumbers:
  assumes inv: "grid_inv g" and sz: "size_ok g"
  shows "\<exists>g'. Optimize g = Some g' \<and> grid_inv g' \<and> size_ok g' \<and>
     length (Cells g') = length (Cells g) \<and>
     (\<forall>k \<le> length (Cells g). cell_refs g' k = map (forward g) (cell_refs g k)) \<and>
     inj_on (forward g) (set (visit_order g)) \<and>
     forward g ` set (visit_order g) = {w. 1 \<le> unat w \<and> unat w < unat (Used (Entities g'))} \<and>
     (\<forall>e \<in> set (visit_order g).
         slot_read (Storage (Entities g')) (unat (forward g e)) =
         slot_read (Storage (Entities g)) (unat e)) \<and>
     (\<forall>k1 k2 a b. k1 < k2 \<and> k2 \<le> length (Cells g) \<and>
         a \<in> set (cell_refs g k1) \<and> b \<in> set (cell_refs g k2) \<and>
         (\<forall>k \<le> k1. b \<notin> set (cell_refs g k)) \<longrightarrow> forward g a < forward g b)"
proof -
  let ?D = "discover (visit_order g)"
  from Optimize_forward[OF inv sz] obtain g' where
    g': "Optimize g = Some g'" "unat (Used (Entities g')) = Suc (length ?D)"
      "grid_inv g'" "size_ok g'" "length (Cells g') = length (Cells g)"
    and Es: "\<And>p. p < length ?D \<Longrightarrow> slot_read (Storage (Entities g')) (Suc p) =
         slot_read (Storage (Entities g)) (unat (?D ! p))"
    and refs: "\<forall>k \<le> length (Cells g). cell_refs g' k = map (forward g) (cell_refs g k)"
    by blast
  have d: "Suc (length ?D) < 2 ^ 32"
    using g'(2) unat_less_32[of "Used (Entities g')"] by simp
  have ce: "CellsEnd g = length (Cells g)" using inv by (simp add: grid_inv_def)
  have ent: "\<forall>e \<in> set (visit_order g).
         slot_read (Storage (Entities g')) (unat (forward g e)) =
         slot_read (Storage (Entities g)) (unat e)"
  proof
    fix e assume e: "e \<in> set (visit_order g)"
    then have ed: "e \<in> set ?D" by simp
    from Es[OF index_of_less[OF ed]] forward_unat[OF e d] index_of_nth[OF ed]
    show "slot_read (Storage (Entities g')) (unat (forward g e)) =
         slot_read (Storage (Entities g)) (unat e)" by simp
  qed
  have mono: "\<forall>k1 k2 a b. k1 < k2 \<and> k2 \<le> length (Cells g) \<and>
         a \<in> set (cell_refs g k1) \<and> b \<in> set (cell_refs g k2) \<and>
         (\<forall>k \<le> k1. b \<notin> set (cell_refs g k)) \<longrightarrow> forward g a < forward g b"
    using forward_mono[OF ce d] by blast
  have img: "forward g ` set (visit_order g) = {w. 1 \<le> unat w \<and> unat w < unat (Used (Entities g'))}"
    using forward_image[OF d] g'(2) by simp
  from g'(1,3,4,5) refs forward_inj[OF d] img ent mono
  show ?thesis by blast
qed

lemma reachable_A_then_B:
  "reachable exact_ops (the grid_A_then_B) \<and> size_ok (the grid_A_then_B)"
proof -
  have r0: "reachable exact_ops (zero_grid 2 1)"
    unfolding zero_grid_def by (rule reachable.constructed)
  have c: "Copied (entity 24 8 1 1) = 0" "Copied (entity 16 8 4 1) = 0"
    by (simp_all add: entity_def)
  have i1: "Insert exact_ops (entity 24 8 1 1) (zero_grid 2 1)
            = Some (the (Insert exact_ops (entity 24 8 1 1) (zero_grid 2 1)))"
    by code_simp
  have i2: "Insert exact_ops (entity 16 8 4 1)
              (the (Insert exact_ops (entity 24 8 1 1) (zero_grid 2 1)))
            = Some (the grid_A_then_B)"
    by code_simp
  have r2: "reachable exact_ops (the grid_A_then_B)"
    by (rule reachable.inserted[OF reachable.inserted[OF r0 c(1) i1] c(2) i2])
  have "Used (Entities (the grid_A_then_B)) = 3" "Used (References (the grid_A_then_B)) = 4"
    by code_simp+
  then have "size_ok (the grid_A_then_B)"
    by (simp add: size_ok_def)
  with r2 show ?thesis by simp
qed

text \<open>
  C3. On every grid built by \<open>Insert\<close> and \<open>Tick\<close> (with fewer than \<open>2^31\<close> slots in use)
  \<open>Optimize\<close> finishes, and with \<open>forward g\<close> the renumbering of the entity indices:
  every chain holds after the pass the renumbered indices it held before, in the same
  order; the renumbering is one-to-one on the entities reachable from the chains and its
  image is exactly the set of indices in use in the rebuilt entity list, so no entity is
  lost and none is duplicated; the record found under the new index is the record that
  was found under the old one; and an entity that occurs in a chain \<open>k1\<close> gets a smaller
  index than any entity that occurs in no chain up to \<open>k1\<close> and in a later chain \<open>k2\<close>.
\<close>

theorem Optimize_preserves_and_orders:
  "reachable ops g \<Longrightarrow> size_ok g \<Longrightarrow>
   \<exists>g'. Optimize g = Some g' \<and>
     (\<forall>k \<le> length (Cells g). cell_refs g' k = map (forward g) (cell_refs g k)) \<and>
     inj_on (forward g) (set (visit_order g)) \<and>
     forward g ` set (visit_order g) = {w. 1 \<le> unat w \<and> unat w < unat (Used (Entities g'))} \<and>
     (\<forall>e \<in> set (visit_order g).
         slot_read (Storage (Entities g')) (unat (forward g e)) =
         slot_read (Storage (Entities g)) (unat e)) \<and>
     (\<forall>k1 k2 a b. k1 < k2 \<and> k2 \<le> length (Cells g) \<and>
         a \<in> set (cell_refs g k1) \<and> b \<in> set (cell_refs g k2) \<and>
         (\<forall>k \<le> k1. b \<notin> set (cell_refs g k)) \<longrightarrow> forward g a < forward g b)"
proof -
  assume r: "reachable ops g" and sz: "size_ok g"
  from Optimize_renumbers[OF reachable_inv[OF r] sz] show ?thesis by blast
qed

theorem Optimize_preserves_and_orders_witness:
  "reachable exact_ops (the grid_A_then_B) \<and> size_ok (the grid_A_then_B) \<and>
   Optimize (the grid_A_then_B) \<noteq> None \<and>
   cell_refs (the grid_A_then_B) 1 = [2, 1] \<and>
   forward (the grid_A_then_B) 2 = 1 \<and> forward (the grid_A_then_B) 1 = 2 \<and>
   cell_refs (the (Optimize (the grid_A_then_B))) 1 = [1, 2]"
proof -
  note r = reachable_A_then_B
  from Optimize_preserves_and_orders[OF r[THEN conjunct1] r[THEN conjunct2]] obtain g' where
    g': "Optimize (the grid_A_then_B) = Some g'"
    and refs: "\<forall>k \<le> length (Cells (the grid_A_then_B)).
        cell_refs g' k = map (forward (the grid_A_then_B)) (cell_refs (the grid_A_then_B) k)"
    by blast
  have l: "1 \<le> length (Cells (the grid_A_then_B))" by code_simp
  have c: "cell_refs (the grid_A_then_B) 1 = [2, 1]" by code_simp
  have f: "forward (the grid_A_then_B) 2 = 1" "forward (the grid_A_then_B) 1 = 2" by code_simp+
  from refs l have "cell_refs g' 1 = map (forward (the grid_A_then_B)) (cell_refs (the grid_A_then_B) 1)"
    by blast
  with c f g' r show ?thesis by simp
qed

section \<open>Ticking twice\<close>

lemma discover_map_inj:
  "inj_on f (set vs) \<Longrightarrow> discover (map f vs) = map f (discover vs)"
proof (induction vs rule: rev_induct)
  case Nil
  then show ?case by simp
next
  case (snoc x vs)
  from snoc.prems have inj: "inj_on f (set vs)" and x: "f x \<in> f ` set vs \<longleftrightarrow> x \<in> set vs"
    by (auto simp: inj_on_def)
  have "discover (map f (vs @ [x])) = discover (map f vs @ [f x])" by simp
  also have "\<dots> = (if f x \<in> set (map f vs) then discover (map f vs) else discover (map f vs) @ [f x])"
    by (rule discover_snoc)
  finally show ?case using snoc.IH[OF inj] x by (simp add: discover_snoc)
qed

lemma index_of_map_inj:
  "inj_on f (set xs) \<Longrightarrow> e \<in> set xs \<Longrightarrow> index_of (map f xs) (f e) = index_of xs e"
proof (induction xs)
  case Nil
  then show ?case by simp
next
  case (Cons x xs)
  then show ?case by (auto simp: inj_on_def)
qed

lemma visit_order_cong:
  assumes "CellsEnd g' = CellsEnd g"
    and "\<forall>k \<le> CellsEnd g. cell_refs g' k = map f (cell_refs g k)"
  shows "visit_order g' = map f (visit_order g)"
proof -
  have E: "map (cell_refs g') [0 ..< Suc (CellsEnd g)] =
           map (\<lambda>k. map f (cell_refs g k)) [0 ..< Suc (CellsEnd g)]"
    by (rule map_cong) (use assms(2) in \<open>simp_all del: upt_Suc\<close>)
  show ?thesis
    unfolding visit_order_def cell_offsets_def assms(1) E
    by (simp add: map_concat comp_def del: upt_Suc)
qed

lemma forward_fixed:
  assumes inj: "inj_on (forward g) (set (visit_order g))"
    and vo: "visit_order g' = map (forward g) (visit_order g)"
    and a: "a \<in> set (visit_order g')"
  shows "forward g' a = a"
proof -
  from a vo obtain e where e: "e \<in> set (visit_order g)" "a = forward g e" by auto
  have D: "discover (visit_order g') = map (forward g) (discover (visit_order g))"
    unfolding vo by (rule discover_map_inj[OF inj])
  have "inj_on (forward g) (set (discover (visit_order g)))" using inj by simp
  from index_of_map_inj[OF this, of e] e(1)
  have "index_of (discover (visit_order g')) a = index_of (discover (visit_order g)) e"
    unfolding D e(2) by simp
  then show ?thesis unfolding e(2) by (simp add: forward_def)
qed

lemma Optimize_used:
  assumes "grid_inv g" "size_ok g" "Optimize g = Some g'"
  shows "unat (Used (Entities g')) = Suc (length (discover (visit_order g)))"
  using Optimize_forward[OF assms(1,2)] assms(3) by auto

lemma Optimize_twice:
  assumes inv: "grid_inv g" and sz: "size_ok g"
  shows "\<exists>g1 g2. Optimize g = Some g1 \<and> Optimize g1 = Some g2 \<and>
     grid_inv g1 \<and> size_ok g1 \<and> grid_inv g2 \<and>
     length (Cells g1) = length (Cells g) \<and> length (Cells g2) = length (Cells g) \<and>
     (\<forall>k \<le> length (Cells g). cell_refs g2 k = cell_refs g1 k) \<and>
     (\<forall>e \<in> set (visit_order g1).
         slot_read (Storage (Entities g2)) (unat e) = slot_read (Storage (Entities g1)) (unat e)) \<and>
     unat (Used (Entities g2)) = unat (Used (Entities g1))"
proof -
  from Optimize_renumbers[OF inv sz] obtain g1 where
    g1: "Optimize g = Some g1" "grid_inv g1" "size_ok g1" "length (Cells g1) = length (Cells g)"
    and refs1: "\<forall>k \<le> length (Cells g). cell_refs g1 k = map (forward g) (cell_refs g k)"
    and inj1: "inj_on (forward g) (set (visit_order g))"
    and img1: "forward g ` set (visit_order g) = {w. 1 \<le> unat w \<and> unat w < unat (Used (Entities g1))}"
    by blast
  from Optimize_renumbers[OF g1(2,3)] obtain g2 where
    g2: "Optimize g1 = Some g2" "grid_inv g2" "length (Cells g2) = length (Cells g1)"
    and refs2: "\<forall>k \<le> length (Cells g1). cell_refs g2 k = map (forward g1) (cell_refs g1 k)"
    and img2: "forward g1 ` set (visit_order g1) = {w. 1 \<le> unat w \<and> unat w < unat (Used (Entities g2))}"
    and ent2: "\<forall>e \<in> set (visit_order g1).
         slot_read (Storage (Entities g2)) (unat (forward g1 e)) =
         slot_read (Storage (Entities g1)) (unat e)"
    by blast
  have ce: "CellsEnd g = length (Cells g)" "CellsEnd g1 = length (Cells g1)"
    using inv g1(2) by (simp_all add: grid_inv_def)
  have vo: "visit_order g1 = map (forward g) (visit_order g)"
    by (rule visit_order_cong) (use ce g1(4) refs1 in simp_all)
  have fx: "\<And>a. a \<in> set (visit_order g1) \<Longrightarrow> forward g1 a = a"
    by (rule forward_fixed[OF inj1 vo])
  have mem: "\<And>k a. k \<le> length (Cells g1) \<Longrightarrow> a \<in> set (cell_refs g1 k) \<Longrightarrow> a \<in> set (visit_order g1)"
  proof -
    fix k a assume "k \<le> length (Cells g1)" "a \<in> set (cell_refs g1 k)"
    then have "k \<in> set (cell_offsets g1)" using ce(2) by (simp add: cell_offsets_def del: upt_Suc)
    with \<open>a \<in> set (cell_refs g1 k)\<close> show "a \<in> set (visit_order g1)"
      unfolding visit_order_def set_concat set_map by blast
  qed
  have same: "\<forall>k \<le> length (Cells g). cell_refs g2 k = cell_refs g1 k"
  proof (intro allI impI)
    fix k assume "k \<le> length (Cells g)"
    then have k: "k \<le> length (Cells g1)" using g1(4) by simp
    have "map (forward g1) (cell_refs g1 k) = map (\<lambda>a. a) (cell_refs g1 k)"
      by (rule map_cong) (use fx mem[OF k] in simp_all)
    with refs2 k show "cell_refs g2 k = cell_refs g1 k" by simp
  qed
  have ent: "\<forall>e \<in> set (visit_order g1).
         slot_read (Storage (Entities g2)) (unat e) = slot_read (Storage (Entities g1)) (unat e)"
    using ent2 fx by simp
  have used: "unat (Used (Entities g2)) = unat (Used (Entities g1))"
    using Optimize_used[OF inv sz g1(1)] Optimize_used[OF g1(2,3) g2(1)]
    unfolding vo discover_map_inj[OF inj1] by simp
  from g1 g2 same ent used show ?thesis by auto
qed

lemma scan_count_cong:
  assumes "CellsEnd g' = CellsEnd g" "\<forall>k \<le> CellsEnd g. cell_refs g' k = cell_refs g k"
  shows "scan_count g' = scan_count g"
proof -
  have "map (cell_refs g') [0 ..< Suc (CellsEnd g)] = map (cell_refs g) [0 ..< Suc (CellsEnd g)]"
    by (rule map_cong) (use assms(2) in \<open>simp_all del: upt_Suc\<close>)
  then show ?thesis unfolding scan_count_def cell_offsets_def assms(1) by (simp only:)
qed

text \<open>
  C8. On every grid built by \<open>Insert\<close> and \<open>Tick\<close> (with fewer than \<open>2^31\<close> slots in use)
  two \<open>Tick\<close>s in a row both finish and print the same count; the second compaction
  leaves in every chain the entity indices the first one left, in the same order, keeps
  the record of every entity reachable from a chain under its index, and keeps the number
  of entity slots in use.
\<close>

theorem Tick_twice:
  "reachable ops g \<Longrightarrow> size_ok g \<Longrightarrow>
   \<exists>r1 r2. Tick g = Some r1 \<and> Tick (GridAfter r1) = Some r2 \<and> Printed r2 = Printed r1 \<and>
     (\<forall>k \<le> length (Cells g). cell_refs (GridAfter r2) k = cell_refs (GridAfter r1) k) \<and>
     (\<forall>e \<in> set (visit_order (GridAfter r1)).
         slot_read (Storage (Entities (GridAfter r2))) (unat e) =
         slot_read (Storage (Entities (GridAfter r1))) (unat e)) \<and>
     unat (Used (Entities (GridAfter r2))) = unat (Used (Entities (GridAfter r1)))"
proof -
  assume r: "reachable ops g" and sz: "size_ok g"
  have inv: "grid_inv g" by (rule reachable_inv[OF r])
  from Optimize_twice[OF inv sz] obtain g1 g2 where
    o: "Optimize g = Some g1" "Optimize g1 = Some g2"
    and i: "grid_inv g1" "size_ok g1" "grid_inv g2"
    and l: "length (Cells g1) = length (Cells g)" "length (Cells g2) = length (Cells g)"
    and same: "\<forall>k \<le> length (Cells g). cell_refs g2 k = cell_refs g1 k"
    and ent: "\<forall>e \<in> set (visit_order g1).
         slot_read (Storage (Entities g2)) (unat e) = slot_read (Storage (Entities g1)) (unat e)"
    and used: "unat (Used (Entities g2)) = unat (Used (Entities g1))"
    by blast
  from Tick_spec[OF inv sz] o(1) have t1: "Tick g = Some \<lparr>Returned = Void, GridAfter = g1,
        Printed = [Number (scan_count g1), Text '' registered broad collisions'', Endl]\<rparr>"
    by auto
  from Tick_spec[OF i(1,2)] o(2) have t2: "Tick g1 = Some \<lparr>Returned = Void, GridAfter = g2,
        Printed = [Number (scan_count g2), Text '' registered broad collisions'', Endl]\<rparr>"
    by auto
  have ce: "CellsEnd g1 = length (Cells g1)" "CellsEnd g2 = length (Cells g2)"
    using i by (simp_all add: grid_inv_def)
  have "scan_count g2 = scan_count g1"
    by (rule scan_count_cong) (use ce l same in simp_all)
  with t1 t2 same ent used show ?thesis by simp
qed

theorem Tick_twice_witness:
  "reachable exact_ops (the grid_A_then_B) \<and> size_ok (the grid_A_then_B) \<and>
   Tick (the grid_A_then_B) \<noteq> None \<and>
   Tick (GridAfter (the (Tick (the grid_A_then_B)))) \<noteq> None \<and>
   Printed (the (Tick (GridAfter (the (Tick (the grid_A_then_B))))))
     = Printed (the (Tick (the grid_A_then_B))) \<and>
   cell_refs (GridAfter (the (Tick (GridAfter (the (Tick (the grid_A_then_B))))))) 1
     = cell_refs (GridAfter (the (Tick (the grid_A_then_B)))) 1"
proof -
  note r = reachable_A_then_B
  from Tick_twice[OF r[THEN conjunct1] r[THEN conjunct2]] obtain r1 r2 where
    t: "Tick (the grid_A_then_B) = Some r1" "Tick (GridAfter r1) = Some r2"
      "Printed r2 = Printed r1"
    and same: "\<forall>k \<le> length (Cells (the grid_A_then_B)).
        cell_refs (GridAfter r2) k = cell_refs (GridAfter r1) k"
    by blast
  have l: "1 \<le> length (Cells (the grid_A_then_B))" by code_simp
  with same have "cell_refs (GridAfter r2) 1 = cell_refs (GridAfter r1) 1" by blast
  with t r show ?thesis by simp
qed

section \<open>Index zero\<close>

lemma Get_index:
  "Get l = Some (i, l') \<Longrightarrow> i = (if Free l \<noteq> 0 then Free l else Used l)"
  by (auto simp: Get_def grow_def Let_def split: if_splits slot.splits Option.bind_splits)

lemma inv_sentinel:
  assumes inv: "grid_inv g"
  shows "(\<forall>i l. Get (Entities g) = Some (i, l) \<longrightarrow> i \<noteq> 0) \<and>
         (\<forall>j l. Get (References g) = Some (j, l) \<longrightarrow> j \<noteq> 0) \<and>
         (\<forall>k \<le> length (Cells g). 0 \<notin> set (cell_refs g k) \<and>
              (cell_refs g k = [] \<longleftrightarrow> cell_load g k = Some 0)) \<and>
         (\<forall>i x. slot_read (Storage (Entities g)) i = Some x \<longrightarrow> Copied x = 0)"
proof -
  from inv obtain cs where cs: "chains_ok g cs" by (auto simp: grid_inv_def)
  have len: "length cs = Suc (length (Cells g))" by (rule chains_ok_length[OF cs])
  have uE: "Free (Entities g) = 0" "Used (Entities g) \<noteq> 0"
    and uR: "Free (References g) = 0" "Used (References g) \<noteq> 0"
    using inv by (auto simp: grid_inv_def arena_ok_def)
  have 1: "\<forall>i l. Get (Entities g) = Some (i, l) \<longrightarrow> i \<noteq> 0"
    using uE by (auto dest: Get_index)
  have 2: "\<forall>j l. Get (References g) = Some (j, l) \<longrightarrow> j \<noteq> 0"
    using uR by (auto dest: Get_index)
  have 3: "\<forall>k \<le> length (Cells g). 0 \<notin> set (cell_refs g k) \<and>
              (cell_refs g k = [] \<longleftrightarrow> cell_load g k = Some 0)"
  proof (intro allI impI)
    fix k assume "k \<le> length (Cells g)"
    then have k: "k < length cs" and kl: "k \<le> length (Cells g)" using len by simp_all
    have cr: "cell_refs g k = refs_of g (cs ! k)" by (rule chains_ok_cell_refs[OF cs k])
    have ch: "is_chain (Storage (References g)) (cells_all g ! k) (cs ! k)"
      by (rule chains_ok_nth[OF cs k])
    have a: "0 \<notin> set (cell_refs g k)"
    proof
      assume "0 \<in> set (cell_refs g k)"
      then obtain j where j: "j \<in> set (cs ! k)" "Ref (link_of g j) = 0"
        unfolding cr refs_of_def by auto
      from chains_ok_link[OF cs in_concat_nth[OF k j(1)]] j(2) show False by simp
    qed
    have "cs ! k = [] \<longleftrightarrow> cells_all g ! k = 0"
      using ch by (cases "cs ! k") (auto dest: is_chain_zero)
    then have b: "cell_refs g k = [] \<longleftrightarrow> cell_load g k = Some 0"
      unfolding cr using cell_load_cells_all[OF kl] by (simp add: refs_of_def)
    from a b show "0 \<notin> set (cell_refs g k) \<and> (cell_refs g k = [] \<longleftrightarrow> cell_load g k = Some 0)"
      by blast
  qed
  have 4: "\<forall>i x. slot_read (Storage (Entities g)) i = Some x \<longrightarrow> Copied x = 0"
    using inv by (auto simp: grid_inv_def new_clean_def dest: slot_read_mem)
  from 1 2 3 4 show ?thesis by blast
qed

text \<open>
  C7. In every grid built by \<open>Insert\<close> and \<open>Tick\<close>: an index that \<open>Get\<close> hands out, from
  the entity list or from the link list, is not 0; no chain names the entity index 0; a
  chain is empty exactly when its head is 0; and every stored entity record has its
  \<open>Copied\<close> field at 0, the mark of a record not yet moved.
\<close>

theorem index_zero_is_sentinel:
  "reachable ops g \<Longrightarrow>
     (\<forall>i l. Get (Entities g) = Some (i, l) \<longrightarrow> i \<noteq> 0) \<and>
     (\<forall>j l. Get (References g) = Some (j, l) \<longrightarrow> j \<noteq> 0) \<and>
     (\<forall>k \<le> length (Cells g). 0 \<notin> set (cell_refs g k) \<and>
          (cell_refs g k = [] \<longleftrightarrow> cell_load g k = Some 0)) \<and>
     (\<forall>i x. slot_read (Storage (Entities g)) i = Some x \<longrightarrow> Copied x = 0)"
  by (rule inv_sentinel[OF reachable_inv])

theorem index_zero_is_sentinel_witness:
  "reachable exact_ops (the grid_A_then_B) \<and>
   map_option fst (Get (Entities (the grid_A_then_B))) = Some 3 \<and>
   map_option fst (Get (References (the grid_A_then_B))) = Some 4 \<and>
   cell_refs (the grid_A_then_B) 1 = [2, 1] \<and> 0 \<notin> set (cell_refs (the grid_A_then_B) 1) \<and>
   cell_refs (the grid_A_then_B) 2 = [] \<and> cell_load (the grid_A_then_B) 2 = Some 0"
proof -
  note r = reachable_A_then_B[THEN conjunct1]
  have l: "1 \<le> length (Cells (the grid_A_then_B))" "2 \<le> length (Cells (the grid_A_then_B))"
    by code_simp+
  have c: "map_option fst (Get (Entities (the grid_A_then_B))) = Some 3"
    "map_option fst (Get (References (the grid_A_then_B))) = Some 4"
    "cell_refs (the grid_A_then_B) 1 = [2, 1]" "cell_refs (the grid_A_then_B) 2 = []"
    by code_simp+
  from index_zero_is_sentinel[OF r] l
  have "0 \<notin> set (cell_refs (the grid_A_then_B) 1)"
    "cell_refs (the grid_A_then_B) 2 = [] \<longleftrightarrow> cell_load (the grid_A_then_B) 2 = Some 0"
    by blast+
  with r c show ?thesis by simp
qed

end
